theory Spec2Isabelle
  imports Complex_Main "HOL-Library.Char_ord" "HOL-Library.List_Lexorder"
    "HOL-Library.Product_Lexorder" "HOL-Library.Multiset"
begin

section \<open>Characters and strings\<close>

text \<open>
  A Python \<open>str\<close> is a sequence of code points. A \<^typ>\<open>char\<close> stands for the code
  point of the same number, so a \<^typ>\<open>string\<close> is a Python string over
  U+0000..U+00FF. On this range \<open>str.lower\<close>, the regex classes \<open>\w\<close> and \<open>\s\<close>
  (Unicode mode, the default for \<open>str\<close> patterns), \<open>str.isspace\<close>, \<open>str.strip\<close> and
  \<open>str.split\<close> are the following functions.
\<close>

definition is_upper :: "char \<Rightarrow> bool" where
  "is_upper c = (let n = (of_char c :: nat) in
     (65 \<le> n \<and> n \<le> 90) \<or> (192 \<le> n \<and> n \<le> 214) \<or> (216 \<le> n \<and> n \<le> 222))"

definition lower_char :: "char \<Rightarrow> char" where
  "lower_char c = (if is_upper c then char_of ((of_char c :: nat) + 32) else c)"

definition lower :: "string \<Rightarrow> string" where
  "lower text = map lower_char text"

definition is_word :: "char \<Rightarrow> bool" where
  "is_word c = (let n = (of_char c :: nat) in
     (48 \<le> n \<and> n \<le> 57) \<or> (65 \<le> n \<and> n \<le> 90) \<or> n = 95 \<or> (97 \<le> n \<and> n \<le> 122) \<or>
     n = 170 \<or> (178 \<le> n \<and> n \<le> 179) \<or> n = 181 \<or> (185 \<le> n \<and> n \<le> 186) \<or>
     (188 \<le> n \<and> n \<le> 190) \<or> (192 \<le> n \<and> n \<le> 214) \<or> (216 \<le> n \<and> n \<le> 246) \<or>
     (248 \<le> n \<and> n \<le> 255))"

definition is_space :: "char \<Rightarrow> bool" where
  "is_space c = (let n = (of_char c :: nat) in
     (9 \<le> n \<and> n \<le> 13) \<or> (28 \<le> n \<and> n \<le> 32) \<or> n = 133 \<or> n = 160)"

text \<open>\<open>re.sub(r"[^\w\s]", " ", text)\<close>\<close>

definition sub_punct :: "string \<Rightarrow> string" where
  "sub_punct text = map (\<lambda>c. if \<not> is_word c \<and> \<not> is_space c then CHR '' '' else c) text"

text \<open>\<open>re.sub(r"\s+", " ", text)\<close>: every maximal run of whitespace becomes one space.\<close>

function sub_spaces :: "string \<Rightarrow> string" where
  "sub_spaces [] = []"
| "sub_spaces (c # cs) =
     (if is_space c then CHR '' '' # sub_spaces (dropWhile is_space cs)
      else c # sub_spaces cs)"
  by pat_completeness auto
termination
  by (relation "measure length") (auto simp: less_Suc_eq_le length_dropWhile_le)

text \<open>\<open>text.strip()\<close>\<close>

definition strip :: "string \<Rightarrow> string" where
  "strip text = rev (dropWhile is_space (rev (dropWhile is_space text)))"

text \<open>\<open>text.split()\<close>: the maximal runs of non-whitespace, in order.\<close>

function split :: "string \<Rightarrow> string list" where
  "split [] = []"
| "split (c # cs) =
     (if is_space c then split cs
      else (c # takeWhile (\<lambda>d. \<not> is_space d) cs) # split (dropWhile (\<lambda>d. \<not> is_space d) cs))"
  by pat_completeness auto
termination
  by (relation "measure length") (auto simp: less_Suc_eq_le length_dropWhile_le)

section \<open>Helper utilities\<close>

definition normalize :: "string \<Rightarrow> string" where
  "normalize text = strip (sub_spaces (sub_punct (lower text)))"

definition tokenize :: "string \<Rightarrow> string list" where
  "tokenize text = split (normalize text)"

section \<open>Sentiment and emotion\<close>

definition POS_WORDS :: "string set" where
  "POS_WORDS = {''good'', ''great'', ''awesome'', ''fantastic'', ''love'', ''liked'', ''happy'',
     ''nice'', ''excellent'', ''amazing'', ''wonderful'', ''best'', ''positive'', ''pleased'',
     ''enjoy'', ''enjoyed'', ''yay'', ''yay!''}"

definition NEG_WORDS :: "string set" where
  "NEG_WORDS = {''bad'', ''terrible'', ''awful'', ''hate'', ''hated'', ''sad'', ''angry'', ''upset'',
     ''worst'', ''poor'', ''negative'', ''disappointed'', ''disappointing'', ''angry'', ''ugh'',
     ''sucks''}"

definition EMOTION_KEYWORDS :: "(string \<times> string set) list" where
  "EMOTION_KEYWORDS =
    [(''joy'', {''happy'', ''joy'', ''delighted'', ''excited'', ''glad'', ''pleased'', ''yay'', ''awesome''}),
     (''sadness'', {''sad'', ''unhappy'', ''down'', ''depressed'', ''blue'', ''sorrow'', ''mourn''}),
     (''anger'', {''angry'', ''mad'', ''furious'', ''irate'', ''annoyed'', ''hate'', ''hated''}),
     (''fear'', {''scared'', ''afraid'', ''fear'', ''terrified'', ''panic'', ''anxious''}),
     (''surprise'', {''surprised'', ''wow'', ''shocked'', ''amazed''}),
     (''love'', {''love'', ''loving'', ''adore'', ''cherish''})]"

record sentiment =
  polarity :: string
  score :: int
  pos :: nat
  neg :: nat

definition detect_sentiment :: "string \<Rightarrow> sentiment" where
  "detect_sentiment text =
    (let tokens = tokenize text;
         pos_count = length (filter (\<lambda>t. t \<in> POS_WORDS) tokens);
         neg_count = length (filter (\<lambda>t. t \<in> NEG_WORDS) tokens);
         score = int pos_count - int neg_count;
         polarity = (if score > 0 then ''positive''
                     else if score < 0 then ''negative''
                     else ''neutral'')
     in \<lparr>polarity = polarity, score = score, pos = pos_count, neg = neg_count\<rparr>)"

text \<open>The loop of \<open>detect_emotions\<close> over the items of the keyword table; \<open>found\<close> is the dict
  being filled.\<close>

fun emotions_loop :: "string set \<Rightarrow> (string \<times> string set) list \<Rightarrow> (string \<rightharpoonup> nat) \<Rightarrow> (string \<rightharpoonup> nat)" where
  "emotions_loop tokens [] found = found"
| "emotions_loop tokens ((emo, kwset) # rest) found =
     (let matches = tokens \<inter> kwset
      in if matches \<noteq> {} then emotions_loop tokens rest (found(emo \<mapsto> card matches))
         else emotions_loop tokens rest found)"

definition detect_emotions :: "string \<Rightarrow> (string \<rightharpoonup> nat)" where
  "detect_emotions text = emotions_loop (set (tokenize text)) EMOTION_KEYWORDS Map.empty"

section \<open>The normal form of normalized text\<close>

text \<open>A character of a normalized string: the space, or a word character that is not
  an upper-case letter.\<close>

definition norm_char :: "char \<Rightarrow> bool" where
  "norm_char c = (c = CHR '' '' \<or> (is_word c \<and> \<not> is_upper c))"



section \<open>Rule-based intents\<close>

text \<open>
  The regular expressions of the intent table are sequences of literal characters and
  \<open>\b\<close> assertions. \<open>word_boundary text p\<close> is \<open>\b\<close> at position \<open>p\<close>: exactly one of the
  characters before and after the position is a word character (a missing character
  counts as a non-word character).
\<close>

datatype re_atom = WordB | Lit char

type_synonym pattern = "re_atom list"

definition word_boundary :: "string \<Rightarrow> nat \<Rightarrow> bool" where
  "word_boundary text p =
     ((p > 0 \<and> is_word (text ! (p - 1))) \<noteq> (p < length text \<and> is_word (text ! p)))"

fun match_here :: "pattern \<Rightarrow> string \<Rightarrow> nat \<Rightarrow> bool" where
  "match_here [] text p = True"
| "match_here (WordB # rest) text p = (word_boundary text p \<and> match_here rest text p)"
| "match_here (Lit c # rest) text p =
     (p < length text \<and> text ! p = c \<and> match_here rest text (Suc p))"

text \<open>\<open>re.search(patt, text)\<close> as a truth value: a match starts at some position.\<close>

definition re_search :: "pattern \<Rightarrow> string \<Rightarrow> bool" where
  "re_search patt text = list_ex (match_here patt text) [0..<Suc (length text)]"

text \<open>\<open>r"\bhello\b"\<close> is \<open>bounded ''hello''\<close>, \<open>r"how are you"\<close> is \<open>literal ''how are you''\<close>.\<close>

definition bounded :: "string \<Rightarrow> pattern" where
  "bounded s = WordB # map Lit s @ [WordB]"

definition literal :: "string \<Rightarrow> pattern" where
  "literal s = map Lit s"

record intent_rule =
  patterns :: "pattern list"
  responses :: "string list"

text \<open>The response templates are output text only. Three of them contain an em dash
  (U+2014), which is written here as its three UTF-8 bytes.\<close>

definition em_dash :: string where
  "em_dash = [char_of (226 :: nat), char_of (128 :: nat), char_of (148 :: nat)]"

definition INTENTS :: "(string \<times> intent_rule) list" where
  "INTENTS =
    [(''greeting'',
      \<lparr>patterns = [bounded ''hello'', bounded ''hi'', bounded ''hey'', bounded ''good morning'',
                   bounded ''good evening''],
       responses = [''Hello! How can I help you today?'',
                    ''Hi there '' @ em_dash @ '' what can I do for you?'',
                    ''Hey! Ask me anything.'']\<rparr>),
     (''goodbye'',
      \<lparr>patterns = [bounded ''bye'', bounded ''goodbye'', bounded ''see you'', bounded ''exit'',
                   bounded ''quit''],
       responses = [''Goodbye! Take care.'', ''See you later!'', ''It was nice talking to you.'']\<rparr>),
     (''thanks'',
      \<lparr>patterns = [bounded ''thanks'', bounded ''thank you'', bounded ''thx''],
       responses = [''You're welcome!'',
                    ''No problem '' @ em_dash @ '' happy to help.'', ''Anytime!'']\<rparr>),
     (''how_are_you'',
      \<lparr>patterns = [literal ''how are you'', literal ''how's it going'',
                   literal ''how are things''],
       responses = [''I'm a bot, but I'm running smoothly!'',
                    ''All good here '' @ em_dash @ '' ready to help you.'']\<rparr>),
     (''help'',
      \<lparr>patterns = [bounded ''help'', bounded ''assist'', bounded ''support'',
                   literal ''what can you do''],
       responses =
         [''I can answer common questions, detect basic sentiment in your text, and fetch answers from a small knowledge base.'',
          ''Try asking me about the project tasks (image resizer, Flask app, data analysis), or say how you're feeling.'']\<rparr>)]"

datatype py_error = KeyError | IndexError | ValueError

text \<open>The inner loop of \<open>match_intent\<close>: is there a pattern of the rule that matches?\<close>

fun patterns_loop :: "pattern list \<Rightarrow> string \<Rightarrow> bool" where
  "patterns_loop [] text = False"
| "patterns_loop (patt # rest) text = (if re_search patt text then True else patterns_loop rest text)"

fun intents_loop :: "(string \<times> intent_rule) list \<Rightarrow> string \<Rightarrow> string option" where
  "intents_loop [] text = None"
| "intents_loop ((intent, data) # rest) text =
     (if patterns_loop (patterns data) text then Some intent else intents_loop rest text)"

definition match_intent :: "string \<Rightarrow> string option" where
  "match_intent user_input = intents_loop INTENTS (lower user_input)"

text \<open>\<open>random.choice(seq)\<close> raises \<open>IndexError\<close> on an empty sequence and returns
  \<open>seq[randbelow(len(seq))]\<close> otherwise, where the random source \<open>randbelow n\<close> yields a
  number below \<open>n\<close>.\<close>

definition choice :: "(nat \<Rightarrow> nat) \<Rightarrow> 'a list \<Rightarrow> py_error + 'a" where
  "choice randbelow seq =
     (if seq = [] then Inl IndexError else Inr (seq ! randbelow (length seq)))"

definition intent_response :: "(nat \<Rightarrow> nat) \<Rightarrow> string \<Rightarrow> py_error + string" where
  "intent_response randbelow intent_key =
     (case map_of INTENTS intent_key of
        None \<Rightarrow> Inl KeyError
      | Some data \<Rightarrow> choice randbelow (responses data))"

section \<open>Sequence matching (difflib)\<close>

text \<open>
  \<open>find_in_kb\<close> calls \<open>difflib.get_close_matches\<close>, which compares strings with a
  \<open>SequenceMatcher\<close> built with its defaults (\<open>isjunk = None\<close>, \<open>autojunk = True\<close>). The
  matcher holds the candidate as \<open>a\<close> and the query as \<open>b\<close>. Its floating-point ratios
  \<open>2.0 * matches / length\<close> are modelled as exact rationals; the comparisons made with
  them agree with the floating-point ones for strings shorter than ten million characters.

  \<open>bpopular b\<close> are the characters that \<open>__chain_b\<close> drops from the index \<open>b2j\<close> of a long
  \<open>b\<close>; \<open>b2j b elt\<close> is \<open>b2j.get(elt, [])\<close>, the ascending positions of \<open>elt\<close> in \<open>b\<close>.
\<close>

definition bpopular :: "string \<Rightarrow> char set" where
  "bpopular b =
     (let n = length b
      in if n \<ge> 200 then {elt \<in> set b. count_list b elt > n div 100 + 1} else {})"

definition b2j :: "string \<Rightarrow> char \<Rightarrow> nat list" where
  "b2j b elt = (if elt \<in> bpopular b then [] else filter (\<lambda>j. b ! j = elt) [0..<length b])"

type_synonym match = "nat \<times> nat \<times> nat"

text \<open>
  The inner loop of \<open>find_longest_match\<close> over the positions \<open>j\<close> of \<open>a[i]\<close> in \<open>b\<close>.
  \<open>j2len.get(j-1, 0)\<close> finds nothing for \<open>j = 0\<close>, and \<open>k \<le> i + 1\<close>, \<open>k \<le> j + 1\<close> hold
  whenever the best match is replaced, so \<open>i-k+1\<close> is \<open>i + 1 - k\<close> on naturals.
\<close>

fun inner_loop ::
  "nat \<Rightarrow> nat \<Rightarrow> nat \<Rightarrow> (nat \<rightharpoonup> nat) \<Rightarrow> nat list \<Rightarrow> (nat \<rightharpoonup> nat) \<Rightarrow> match \<Rightarrow> (nat \<rightharpoonup> nat) \<times> match" where
  "inner_loop i blo bhi j2len [] newj2len best = (newj2len, best)"
| "inner_loop i blo bhi j2len (j # js) newj2len (besti, bestj, bestsize) =
     (if j < blo then inner_loop i blo bhi j2len js newj2len (besti, bestj, bestsize)
      else if j \<ge> bhi then (newj2len, (besti, bestj, bestsize))
      else
        let k = (if j = 0 then 0 else case j2len (j - 1) of None \<Rightarrow> 0 | Some v \<Rightarrow> v) + 1
        in inner_loop i blo bhi j2len js (newj2len(j \<mapsto> k))
             (if k > bestsize then (i + 1 - k, j + 1 - k, k) else (besti, bestj, bestsize)))"

fun outer_loop ::
  "string \<Rightarrow> string \<Rightarrow> nat \<Rightarrow> nat \<Rightarrow> nat list \<Rightarrow> (nat \<rightharpoonup> nat) \<Rightarrow> match \<Rightarrow> match" where
  "outer_loop a b blo bhi [] j2len best = best"
| "outer_loop a b blo bhi (i # is) j2len best =
     (case inner_loop i blo bhi j2len (b2j b (a ! i)) Map.empty best of
        (newj2len, best') \<Rightarrow> outer_loop a b blo bhi is newj2len best')"

text \<open>The two loops that extend the best match over equal elements on each side. No
  element is junk, so their tests \<open>not isbjunk(...)\<close> hold and the two later loops over
  junk elements do nothing.\<close>

function extend_left :: "string \<Rightarrow> string \<Rightarrow> nat \<Rightarrow> nat \<Rightarrow> match \<Rightarrow> match" where
  "extend_left a b alo blo (besti, bestj, bestsize) =
     (if besti > alo \<and> bestj > blo \<and> a ! (besti - 1) = b ! (bestj - 1)
      then extend_left a b alo blo (besti - 1, bestj - 1, bestsize + 1)
      else (besti, bestj, bestsize))"
  by pat_completeness auto
termination
  by (relation "measure (\<lambda>(a, b, alo, blo, besti, bestj, bestsize). besti)") auto

declare extend_left.simps [simp del]

function extend_right :: "string \<Rightarrow> string \<Rightarrow> nat \<Rightarrow> nat \<Rightarrow> match \<Rightarrow> match" where
  "extend_right a b ahi bhi (besti, bestj, bestsize) =
     (if besti + bestsize < ahi \<and> bestj + bestsize < bhi \<and>
         a ! (besti + bestsize) = b ! (bestj + bestsize)
      then extend_right a b ahi bhi (besti, bestj, bestsize + 1)
      else (besti, bestj, bestsize))"
  by pat_completeness auto
termination
  by (relation "measure (\<lambda>(a, b, ahi, bhi, besti, bestj, bestsize). ahi - (besti + bestsize))") auto

declare extend_right.simps [simp del]

definition find_longest_match :: "string \<Rightarrow> string \<Rightarrow> nat \<Rightarrow> nat \<Rightarrow> nat \<Rightarrow> nat \<Rightarrow> match" where
  "find_longest_match a b alo ahi blo bhi =
     extend_right a b ahi bhi
       (extend_left a b alo blo
          (outer_loop a b blo bhi [alo..<ahi] Map.empty (alo, blo, 0)))"

section \<open>The longest match lies in its window and is a match\<close>

definition good_match :: "string \<Rightarrow> string \<Rightarrow> nat \<Rightarrow> nat \<Rightarrow> nat \<Rightarrow> nat \<Rightarrow> match \<Rightarrow> bool" where
  "good_match a b alo ahi blo bhi m =
     (case m of (i, j, k) \<Rightarrow>
        alo \<le> i \<and> blo \<le> j \<and>
        (if k = 0 then i = alo \<and> j = blo else i + k \<le> ahi \<and> j + k \<le> bhi) \<and>
        (\<forall>t<k. a ! (i + t) = b ! (j + t)))"

definition row_ok :: "string \<Rightarrow> string \<Rightarrow> nat \<Rightarrow> nat \<Rightarrow> nat \<Rightarrow> (nat \<rightharpoonup> nat) \<Rightarrow> bool" where
  "row_ok a b alo blo i j2len =
     (\<forall>j v. j2len j = Some v \<longrightarrow>
        1 \<le> v \<and> v + alo \<le> i \<and> v + blo \<le> j + 1 \<and> (\<forall>t<v. a ! (i - 1 - t) = b ! (j - t)))"

lemma row_ok_empty: "row_ok a b alo blo i Map.empty"
  by (simp add: row_ok_def)

lemma inner_loop_good:
  assumes "row_ok a b alo blo i j2len" "row_ok a b alo blo (Suc i) newj2len"
    "good_match a b alo ahi blo bhi best" "alo \<le> i" "i < ahi" "\<forall>j\<in>set js. b ! j = a ! i"
  shows "row_ok a b alo blo (Suc i) (fst (inner_loop i blo bhi j2len js newj2len best)) \<and>
         good_match a b alo ahi blo bhi (snd (inner_loop i blo bhi j2len js newj2len best))"
  using assms
proof (induction js arbitrary: newj2len best)
  case Nil
  then show ?case by simp
next
  case (Cons j js)
  obtain besti bestj bestsize where best: "best = (besti, bestj, bestsize)" by (cases best)
  show ?case
  proof (cases "j < blo")
    case True
    then show ?thesis using Cons best by simp
  next
    case lo: False
    show ?thesis
    proof (cases "j \<ge> bhi")
      case True
      then show ?thesis using Cons.prems lo best by simp
    next
      case hi: False
      define prev where "prev = (if j = 0 then 0 else case j2len (j - 1) of None \<Rightarrow> 0 | Some v \<Rightarrow> v)"
      define k where "k = prev + 1"
      have ab: "a ! i = b ! j" using Cons.prems(6) by simp
      have prev: "prev + alo \<le> i \<and> prev + blo \<le> j \<and> (\<forall>t<prev. a ! (i - 1 - t) = b ! (j - 1 - t))"
      proof (cases "j = 0 \<or> j2len (j - 1) = None")
        case True
        then have "prev = 0" by (auto simp: prev_def)
        then show ?thesis using Cons.prems(4) lo by simp
      next
        case False
        then obtain v where v: "j \<noteq> 0" "j2len (j - 1) = Some v" by auto
        then have "prev = v" by (simp add: prev_def)
        then show ?thesis using Cons.prems(1) v unfolding row_ok_def by fastforce
      qed
      have km: "\<forall>t<k. a ! (i - t) = b ! (j - t)"
      proof (intro allI impI)
        fix t assume t: "t < k"
        show "a ! (i - t) = b ! (j - t)"
        proof (cases t)
          case 0
          then show ?thesis using ab by simp
        next
          case (Suc s)
          then have "s < prev" using t k_def by simp
          then have "a ! (i - 1 - s) = b ! (j - 1 - s)" using prev by blast
          then show ?thesis using Suc by simp
        qed
      qed
      have row: "row_ok a b alo blo (Suc i) (newj2len(j \<mapsto> k))"
        using Cons.prems(2) prev km unfolding row_ok_def k_def by auto
      let ?best = "if k > bestsize then (i + 1 - k, j + 1 - k, k) else (besti, bestj, bestsize)"
      have "good_match a b alo ahi blo bhi (i + 1 - k, j + 1 - k, k)"
      proof -
        have "\<forall>t<k. a ! (i + 1 - k + t) = b ! (j + 1 - k + t)"
        proof (intro allI impI)
          fix t assume t: "t < k"
          have ki: "k \<le> i + 1" "k \<le> j + 1" using prev k_def by auto
          have e1: "i + 1 - k + t = i - (k - 1 - t)" using t ki by arith
          have e2: "j + 1 - k + t = j - (k - 1 - t)" using t ki by arith
          have "k - 1 - t < k" using t by arith
          then have "a ! (i - (k - 1 - t)) = b ! (j - (k - 1 - t))" using km by blast
          then show "a ! (i + 1 - k + t) = b ! (j + 1 - k + t)" by (simp only: e1 e2)
        qed
        then show ?thesis
          using prev hi Cons.prems(5) unfolding good_match_def k_def by auto
      qed
      then have g: "good_match a b alo ahi blo bhi ?best" using Cons.prems(3) best by simp
      have step: "inner_loop i blo bhi j2len (j # js) newj2len best =
          inner_loop i blo bhi j2len js (newj2len(j \<mapsto> k)) ?best"
        using lo hi best by (simp add: k_def prev_def Let_def)
      have js: "\<forall>j\<in>set js. b ! j = a ! i" using Cons.prems(6) by simp
      show ?thesis unfolding step
        by (rule Cons.IH[OF Cons.prems(1) row g Cons.prems(4,5) js])
    qed
  qed
qed

lemma b2j_sound: "j \<in> set (b2j b elt) \<Longrightarrow> b ! j = elt"
  by (auto simp: b2j_def split: if_splits)

lemma outer_loop_good:
  assumes "row_ok a b alo blo m j2len" "good_match a b alo ahi blo bhi best" "alo \<le> m"
  shows "good_match a b alo ahi blo bhi (outer_loop a b blo bhi [m..<ahi] j2len best)"
  using assms
proof (induction "ahi - m" arbitrary: m j2len best)
  case 0
  then show ?case by simp
next
  case (Suc n)
  then have m: "m < ahi" and n: "n = ahi - Suc m" by auto
  let ?r = "inner_loop m blo bhi j2len (b2j b (a ! m)) Map.empty best"
  have "row_ok a b alo blo (Suc m) (fst ?r) \<and> good_match a b alo ahi blo bhi (snd ?r)"
    using Suc.prems m b2j_sound
    by (intro inner_loop_good) (auto simp: row_ok_empty)
  then have "good_match a b alo ahi blo bhi (outer_loop a b blo bhi [Suc m..<ahi] (fst ?r) (snd ?r))"
    using Suc.hyps(1)[OF n] Suc.prems(3) by simp
  then show ?case using m by (simp add: upt_conv_Cons case_prod_unfold)
qed

lemma extend_left_good:
  "good_match a b alo ahi blo bhi best \<Longrightarrow> good_match a b alo ahi blo bhi (extend_left a b alo blo best)"
proof (induction a b alo blo best rule: extend_left.induct)
  case (1 a b alo blo besti bestj bestsize)
  show ?case
  proof (cases "besti > alo \<and> bestj > blo \<and> a ! (besti - 1) = b ! (bestj - 1)")
    case True
    from "1.prems" True have nz: "bestsize \<noteq> 0"
      by (auto simp: good_match_def split: if_splits)
    with "1.prems" have r: "besti + bestsize \<le> ahi" "bestj + bestsize \<le> bhi"
      and m: "\<forall>t<bestsize. a ! (besti + t) = b ! (bestj + t)"
      by (simp_all add: good_match_def)
    have "a ! (besti - 1 + t) = b ! (bestj - 1 + t)" if "t < bestsize + 1" for t
    proof (cases t)
      case 0
      then show ?thesis using True by simp
    next
      case (Suc u)
      then have "u < bestsize" using that by simp
      then have "a ! (besti + u) = b ! (bestj + u)" using m by blast
      moreover have "besti - 1 + t = besti + u" "bestj - 1 + t = bestj + u"
        using True Suc by auto
      ultimately show ?thesis by simp
    qed
    moreover have "alo \<le> besti - 1" "blo \<le> bestj - 1"
      "besti - 1 + (bestsize + 1) \<le> ahi" "bestj - 1 + (bestsize + 1) \<le> bhi"
      using True r by auto
    ultimately have "good_match a b alo ahi blo bhi (besti - 1, bestj - 1, bestsize + 1)"
      unfolding good_match_def by simp
    then have "good_match a b alo ahi blo bhi (extend_left a b alo blo (besti - 1, bestj - 1, bestsize + 1))"
      using "1.IH" True by blast
    moreover have "extend_left a b alo blo (besti, bestj, bestsize) =
        extend_left a b alo blo (besti - 1, bestj - 1, bestsize + 1)"
      using True extend_left.simps[of a b alo blo besti bestj bestsize] by simp
    ultimately show ?thesis by simp
  next
    case False
    then have "extend_left a b alo blo (besti, bestj, bestsize) = (besti, bestj, bestsize)"
      using extend_left.simps[of a b alo blo besti bestj bestsize] by auto
    then show ?thesis using "1.prems" by simp
  qed
qed

lemma extend_right_good:
  "good_match a b alo ahi blo bhi best \<Longrightarrow> good_match a b alo ahi blo bhi (extend_right a b ahi bhi best)"
proof (induction a b ahi bhi best rule: extend_right.induct)
  case (1 a b ahi bhi besti bestj bestsize)
  show ?case
  proof (cases "besti + bestsize < ahi \<and> bestj + bestsize < bhi \<and>
         a ! (besti + bestsize) = b ! (bestj + bestsize)")
    case True
    from "1.prems" have lo: "alo \<le> besti" "blo \<le> bestj"
      and m: "\<forall>t<bestsize. a ! (besti + t) = b ! (bestj + t)"
      by (simp_all add: good_match_def)
    have "a ! (besti + t) = b ! (bestj + t)" if "t < bestsize + 1" for t
    proof (cases "t = bestsize")
      case True
      then show ?thesis using \<open>besti + bestsize < ahi \<and> bestj + bestsize < bhi \<and>
         a ! (besti + bestsize) = b ! (bestj + bestsize)\<close> by simp
    next
      case False
      then have "t < bestsize" using that by simp
      then show ?thesis using m by blast
    qed
    moreover have "besti + (bestsize + 1) \<le> ahi" "bestj + (bestsize + 1) \<le> bhi"
      using True by auto
    ultimately have "good_match a b alo ahi blo bhi (besti, bestj, bestsize + 1)"
      using lo unfolding good_match_def by simp
    then have "good_match a b alo ahi blo bhi (extend_right a b ahi bhi (besti, bestj, bestsize + 1))"
      using "1.IH" True by blast
    moreover have "extend_right a b ahi bhi (besti, bestj, bestsize) =
        extend_right a b ahi bhi (besti, bestj, bestsize + 1)"
      using True extend_right.simps[of a b ahi bhi besti bestj bestsize] by simp
    ultimately show ?thesis by simp
  next
    case False
    then have "extend_right a b ahi bhi (besti, bestj, bestsize) = (besti, bestj, bestsize)"
      using extend_right.simps[of a b ahi bhi besti bestj bestsize] by auto
    then show ?thesis using "1.prems" by simp
  qed
qed

lemma find_longest_match_good:
  "good_match a b alo ahi blo bhi (find_longest_match a b alo ahi blo bhi)"
  unfolding find_longest_match_def
  by (intro extend_right_good extend_left_good outer_loop_good)
     (simp_all add: row_ok_empty good_match_def)


section \<open>Matching blocks and ratios\<close>

text \<open>
  The loop of \<open>get_matching_blocks\<close>. \<open>queue\<close> is used as a stack in the source
  (\<open>append\<close> and \<open>pop\<close> at the end); here its top is the head of the list.
\<close>

function blocks_loop ::
  "string \<Rightarrow> string \<Rightarrow> (nat \<times> nat \<times> nat \<times> nat) list \<Rightarrow> match list \<Rightarrow> match list" where
  "blocks_loop a b [] matching_blocks = matching_blocks"
| "blocks_loop a b ((alo, ahi, blo, bhi) # queue) matching_blocks =
     (let (i, j, k) = find_longest_match a b alo ahi blo bhi
      in if k \<noteq> 0 then
           blocks_loop a b
             ((if i + k < ahi \<and> j + k < bhi then [(i + k, ahi, j + k, bhi)] else []) @
              (if alo < i \<and> blo < j then [(alo, i, blo, j)] else []) @ queue)
             (matching_blocks @ [(i, j, k)])
         else blocks_loop a b queue matching_blocks)"
  by pat_completeness auto
termination
proof (relation "measure (\<lambda>(a, b, queue, matching_blocks).
    sum_list (map (\<lambda>(alo, ahi, blo, bhi). 2 * (ahi - alo) + 1) queue))", goal_cases)
  case 1
  then show ?case by simp
next
  case (2 a b alo ahi blo bhi queue matching_blocks x i y j k)
  then have "good_match a b alo ahi blo bhi (i, j, k)"
    using find_longest_match_good[of a b alo ahi blo bhi] by simp
  with 2 show ?case by (auto simp: good_match_def)
next
  case (3 a b alo ahi blo bhi queue matching_blocks x i y j k)
  then show ?case by simp
qed

declare blocks_loop.simps [simp del]

text \<open>The loop that merges adjacent blocks of the sorted list.\<close>

fun collapse_loop :: "match list \<Rightarrow> match \<Rightarrow> match list \<Rightarrow> match \<times> match list" where
  "collapse_loop [] (i1, j1, k1) non_adjacent = ((i1, j1, k1), non_adjacent)"
| "collapse_loop ((i2, j2, k2) # rest) (i1, j1, k1) non_adjacent =
     (if i1 + k1 = i2 \<and> j1 + k1 = j2 then collapse_loop rest (i1, j1, k1 + k2) non_adjacent
      else collapse_loop rest (i2, j2, k2)
             (if k1 \<noteq> 0 then non_adjacent @ [(i1, j1, k1)] else non_adjacent))"

definition get_matching_blocks :: "string \<Rightarrow> string \<Rightarrow> match list" where
  "get_matching_blocks a b =
     (let la = length a; lb = length b;
          matching_blocks = sort (blocks_loop a b [(0, la, 0, lb)] [])
      in case collapse_loop matching_blocks (0, 0, 0) [] of
           ((i1, j1, k1), non_adjacent) \<Rightarrow>
             (if k1 \<noteq> 0 then non_adjacent @ [(i1, j1, k1)] else non_adjacent) @ [(la, lb, 0)])"

definition calculate_ratio :: "nat \<Rightarrow> nat \<Rightarrow> rat" where
  "calculate_ratio matches len = (if len \<noteq> 0 then 2 * of_nat matches / of_nat len else 1)"

definition ratio :: "string \<Rightarrow> string \<Rightarrow> rat" where
  "ratio a b =
     (let matches = sum_list (map (\<lambda>(i, j, k). k) (get_matching_blocks a b))
      in calculate_ratio matches (length a + length b))"

text \<open>The loop of \<open>quick_ratio\<close> over the elements of \<open>a\<close>; \<open>fullbcount\<close> counts the
  occurrences in \<open>b\<close>, \<open>avail\<close> is the dict of what is left of them.\<close>

fun quick_loop :: "string \<Rightarrow> (char \<Rightarrow> nat) \<Rightarrow> (char \<rightharpoonup> int) \<Rightarrow> nat \<Rightarrow> nat" where
  "quick_loop [] fullbcount avail matches = matches"
| "quick_loop (elt # rest) fullbcount avail matches =
     (let numb = (case avail elt of Some v \<Rightarrow> v | None \<Rightarrow> int (fullbcount elt))
      in quick_loop rest fullbcount (avail(elt \<mapsto> numb - 1))
           (if numb > 0 then matches + 1 else matches))"

definition quick_ratio :: "string \<Rightarrow> string \<Rightarrow> rat" where
  "quick_ratio a b =
     calculate_ratio (quick_loop a (count_list b) Map.empty 0) (length a + length b)"

definition real_quick_ratio :: "string \<Rightarrow> string \<Rightarrow> rat" where
  "real_quick_ratio a b =
     (let la = length a; lb = length b in calculate_ratio (min la lb) (la + lb))"

text \<open>
  \<open>get_close_matches(word, possibilities, n, cutoff)\<close>. The best \<open>n\<close> of the scored
  candidates are taken by \<open>heapq.nlargest\<close>, which is \<open>sorted(result, reverse=True)[:n]\<close>
  on the pairs (score, candidate); pairs compare by score first, then by the strings.
\<close>

definition nlargest :: "int \<Rightarrow> (rat \<times> string) list \<Rightarrow> (rat \<times> string) list" where
  "nlargest n result = take (nat n) (rev (sort result))"

definition get_close_matches :: "string \<Rightarrow> string list \<Rightarrow> int \<Rightarrow> rat \<Rightarrow> py_error + string list" where
  "get_close_matches word possibilities n cutoff =
     (if \<not> n > 0 then Inl ValueError
      else if \<not> (0 \<le> cutoff \<and> cutoff \<le> 1) then Inl ValueError
      else
        let result = map (\<lambda>x. (ratio x word, x))
              (filter (\<lambda>x. real_quick_ratio x word \<ge> cutoff \<and> quick_ratio x word \<ge> cutoff \<and>
                            ratio x word \<ge> cutoff) possibilities)
        in Inr (map snd (nlargest n result)))"

section \<open>Knowledge base search\<close>

text \<open>An entry of the knowledge base: a dict with the keys \<open>question\<close> and \<open>answer\<close>.\<close>

record kb_entry =
  question :: string
  answer :: string

text \<open>\<open>xs[i]\<close> for \<open>i \<ge> 0\<close>, and \<open>xs.index(x)\<close>.\<close>

definition getitem :: "'a list \<Rightarrow> nat \<Rightarrow> py_error + 'a" where
  "getitem xs i = (if i < length xs then Inr (xs ! i) else Inl IndexError)"

fun list_index :: "'a list \<Rightarrow> 'a \<Rightarrow> py_error + nat" where
  "list_index [] x = Inl ValueError"
| "list_index (y # ys) x =
     (if y = x then Inr 0
      else case list_index ys x of Inl e \<Rightarrow> Inl e | Inr i \<Rightarrow> Inr (Suc i))"

text \<open>The list \<open>overlap_scores\<close> built by the first loop of \<open>find_in_kb\<close>.\<close>

definition overlap_scores :: "string set \<Rightarrow> string list \<Rightarrow> (nat \<times> nat) list" where
  "overlap_scores user_tokens questions =
     map (\<lambda>(idx, q). (card (user_tokens \<inter> set (split q)), idx)) (enumerate 0 questions)"

text \<open>
  The token-overlap stage: from \<open>overlap_scores.sort(reverse=True)\<close> to the first
  \<open>return\<close>. \<open>Inr (Some answer)\<close> is that return; \<open>Inr None\<close> means that control goes on
  to the fallback. The float \<open>ratio\<close> is an exact rational here, as is \<open>cutoff\<close>.
\<close>

definition overlap_stage :: "string \<Rightarrow> string list \<Rightarrow> kb_entry list \<Rightarrow> rat \<Rightarrow> py_error + string option" where
  "overlap_stage user_norm questions kb_data cutoff =
     (let user_tokens = set (split user_norm);
          sorted_scores = rev (sort (overlap_scores user_tokens questions))
      in case getitem sorted_scores 0 of
           Inl e \<Rightarrow> Inl e
         | Inr (best_overlap, best_idx) \<Rightarrow>
             if best_overlap > 0 then
               (case getitem questions best_idx of
                  Inl e \<Rightarrow> Inl e
                | Inr q \<Rightarrow>
                    let q_tokens = set (split q);
                        ratio = of_nat best_overlap / of_nat (max 1 (card q_tokens))
                    in if ratio \<ge> cutoff then
                         (case getitem kb_data best_idx of
                            Inl e \<Rightarrow> Inl e
                          | Inr entry \<Rightarrow> Inr (Some (answer entry)))
                       else Inr None)
             else Inr None)"

text \<open>The fallback: from the call of \<open>get_close_matches\<close> to the end of the function.
  \<open>close_matches\<close> stands for \<open>get_close_matches\<close> with \<open>n=1, cutoff=0.7\<close>.\<close>

definition fallback_stage ::
  "(string \<Rightarrow> string list \<Rightarrow> py_error + string list) \<Rightarrow> string \<Rightarrow> string list \<Rightarrow> kb_entry list \<Rightarrow>
   py_error + string option" where
  "fallback_stage close_matches user_norm questions kb_data =
     (case close_matches user_norm questions of
        Inl e \<Rightarrow> Inl e
      | Inr matches \<Rightarrow>
          if matches \<noteq> [] then
            (case getitem matches 0 of
               Inl e \<Rightarrow> Inl e
             | Inr matched_q \<Rightarrow>
                 (case list_index questions matched_q of
                    Inl e \<Rightarrow> Inl e
                  | Inr matched_idx \<Rightarrow>
                      (case getitem kb_data matched_idx of
                         Inl e \<Rightarrow> Inl e
                       | Inr entry \<Rightarrow> Inr (Some (answer entry)))))
          else Inr None)"

text \<open>\<open>find_in_kb\<close> with the fuzzy matcher it calls as a parameter.\<close>

definition find_in_kb_with ::
  "(string \<Rightarrow> string list \<Rightarrow> py_error + string list) \<Rightarrow> string \<Rightarrow> kb_entry list \<Rightarrow> rat \<Rightarrow>
   py_error + string option" where
  "find_in_kb_with close_matches user_input kb_data cutoff =
     (if kb_data = [] then Inr None
      else
        let user_norm = normalize user_input;
            questions = map (\<lambda>entry. normalize (question entry)) kb_data
        in case overlap_stage user_norm questions kb_data cutoff of
             Inl e \<Rightarrow> Inl e
           | Inr (Some a) \<Rightarrow> Inr (Some a)
           | Inr None \<Rightarrow> fallback_stage close_matches user_norm questions kb_data)"

definition find_in_kb :: "string \<Rightarrow> kb_entry list \<Rightarrow> rat \<Rightarrow> py_error + string option" where
  "find_in_kb user_input kb_data cutoff =
     find_in_kb_with (\<lambda>word possibilities. get_close_matches word possibilities 1 (7 / 10))
       user_input kb_data cutoff"

text \<open>
  The selection of the token-overlap stage in words: the overlap of the query with a
  question, and the latest and the earliest index at which a list of overlaps takes its
  maximum.
\<close>

definition token_overlap :: "string \<Rightarrow> string \<Rightarrow> nat" where
  "token_overlap user_norm q = card (set (split user_norm) \<inter> set (split q))"

definition latest_max_index :: "nat list \<Rightarrow> nat" where
  "latest_max_index ovs = last (filter (\<lambda>i. ovs ! i = Max (set ovs)) [0..<length ovs])"

definition earliest_max_index :: "nat list \<Rightarrow> nat" where
  "earliest_max_index ovs = hd (filter (\<lambda>i. ovs ! i = Max (set ovs)) [0..<length ovs])"

definition overlap_ratio :: "string \<Rightarrow> string \<Rightarrow> rat" where
  "overlap_ratio user_norm q =
     of_nat (token_overlap user_norm q) / of_nat (max 1 (card (set (split q))))"

text \<open>The index that the token-overlap stage selects among the normalized questions of a
  non-empty knowledge base, in words: the latest one of maximal overlap.\<close>

definition stage1_winner :: "string \<Rightarrow> kb_entry list \<Rightarrow> nat" where
  "stage1_winner user_input kb_data =
     latest_max_index
       (map (\<lambda>entry. token_overlap (normalize user_input) (normalize (question entry))) kb_data)"

text \<open>
  The selection of the fallback in words: the normalized questions of the knowledge base,
  those of them whose similarity ratio with the query reaches 0.7, the greatest of these
  by ratio and then by the string itself, and the first position of a value in a list.
\<close>

definition kb_questions :: "kb_entry list \<Rightarrow> string list" where
  "kb_questions kb_data = map (\<lambda>entry. normalize (question entry)) kb_data"

definition close_candidates :: "string \<Rightarrow> string list \<Rightarrow> string list" where
  "close_candidates user_norm questions = filter (\<lambda>q. ratio q user_norm \<ge> 7 / 10) questions"

definition best_close_match :: "string \<Rightarrow> string list \<Rightarrow> string" where
  "best_close_match user_norm questions =
     snd (Max (set (map (\<lambda>q. (ratio q user_norm, q)) (close_candidates user_norm questions))))"

definition first_index :: "'a list \<Rightarrow> 'a \<Rightarrow> nat" where
  "first_index xs x = length (takeWhile (\<lambda>y. y \<noteq> x) xs)"

section \<open>Strings with a character above U+00FF\<close>
















section \<open>Properties of the character classes and of normalize\<close>

lemma of_char_lower_char:
  "of_char (lower_char c) = (if is_upper c then (of_char c :: nat) + 32 else of_char c)"
  by (auto simp: lower_char_def is_upper_def Let_def)

lemma lower_char_not_upper: "\<not> is_upper (lower_char c)"
  unfolding is_upper_def[of "lower_char c"] of_char_lower_char
  by (auto simp: is_upper_def Let_def)

lemma is_word_lower_char: "is_word (lower_char c) = is_word c"
  unfolding is_word_def[of "lower_char c"] of_char_lower_char
  by (auto simp: is_upper_def is_word_def Let_def)

lemma is_space_lower_char: "is_space (lower_char c) = is_space c"
  unfolding is_space_def[of "lower_char c"] of_char_lower_char
  by (auto simp: is_upper_def is_space_def Let_def)


lemma space_not_upper: "is_space c \<Longrightarrow> \<not> is_upper c"
  by (auto simp: is_space_def is_upper_def Let_def)

lemma is_space_blank: "is_space CHR '' ''"
  by (simp add: is_space_def)







lemma set_strip: "set (strip xs) \<subseteq> set xs"
  unfolding strip_def by (auto dest!: set_dropWhileD)

lemma hd_dropWhile_not: "dropWhile P xs \<noteq> [] \<Longrightarrow> \<not> P (hd (dropWhile P xs))"
  by (rule hd_dropWhile)





lemma sub_spaces_chars:
  "list_all (\<lambda>c. is_word c \<or> is_space c) y \<Longrightarrow> list_all (\<lambda>c. \<not> is_upper c) y \<Longrightarrow>
   list_all norm_char (sub_spaces y)"
proof (induction y rule: sub_spaces.induct)
  case (2 c cs)
  have d: "list_all (\<lambda>c. is_word c \<or> is_space c) (dropWhile is_space cs)"
     "list_all (\<lambda>c. \<not> is_upper c) (dropWhile is_space cs)"
    using 2(3,4) by (auto simp: list_all_iff dest!: set_dropWhileD)
  show ?case using 2 d by (auto simp: norm_char_def)
qed simp


lemma sub_punct_chars: "list_all (\<lambda>c. is_word c \<or> is_space c) (sub_punct y)"
  by (auto simp: sub_punct_def list_all_iff is_space_blank)

lemma sub_punct_not_upper:
  "list_all (\<lambda>c. \<not> is_upper c) y \<Longrightarrow> list_all (\<lambda>c. \<not> is_upper c) (sub_punct y)"
  using space_not_upper[OF is_space_blank] by (auto simp: sub_punct_def list_all_iff)

lemma lower_not_upper: "list_all (\<lambda>c. \<not> is_upper c) (lower y)"
  by (simp add: lower_def list_all_iff lower_char_not_upper)





lemma normalize_chars: "list_all norm_char (normalize x)"
proof -
  have "list_all norm_char (sub_spaces (sub_punct (lower x)))"
    by (intro sub_spaces_chars sub_punct_chars sub_punct_not_upper lower_not_upper)
  then show ?thesis
    unfolding normalize_def using set_strip by (fastforce simp: list_all_iff)
qed




section \<open>normalize within and beyond U+00FF\<close>














section \<open>Tokens, sentiment and emotions\<close>

lemma split_tokens:
  "t \<in> set (split s) \<Longrightarrow> t \<noteq> [] \<and> set t \<subseteq> set s \<and> list_all (\<lambda>c. \<not> is_space c) t"
proof (induction s rule: split.induct)
  case (2 c cs)
  show ?case
  proof (cases "is_space c")
    case True
    with 2 show ?thesis by auto
  next
    case False
    from 2(3) False consider "t = c # takeWhile (\<lambda>d. \<not> is_space d) cs"
      | "t \<in> set (split (dropWhile (\<lambda>d. \<not> is_space d) cs))" by auto
    then show ?thesis
    proof cases
      case 1
      then show ?thesis using False
        by (auto simp: list_all_iff dest: set_takeWhileD)
    next
      case 2
      with "2.IH"(2)[OF False] show ?thesis
        by (auto dest: set_dropWhileD)
    qed
  qed
qed simp

lemma tokenize_tokens:
  assumes "t \<in> set (tokenize x)"
  shows "t \<noteq> [] \<and> list_all (\<lambda>c. is_word c \<and> \<not> is_space c) t"
proof -
  from assms have s: "t \<noteq> []" "set t \<subseteq> set (normalize x)" "list_all (\<lambda>c. \<not> is_space c) t"
    using split_tokens[of t "normalize x"] by (simp_all add: tokenize_def)
  have "is_word c \<and> \<not> is_space c" if "c \<in> set t" for c
  proof -
    from that s have "norm_char c" "\<not> is_space c"
      using normalize_chars[of x] by (auto simp: list_all_iff)
    then show ?thesis using is_space_blank by (auto simp: norm_char_def)
  qed
  with s(1) show ?thesis by (simp add: list_all_iff)
qed

lemma yay_bang_not_token: "''yay!'' \<notin> set (tokenize x)"
proof
  assume "''yay!'' \<in> set (tokenize x)"
  then have "list_all (\<lambda>c. is_word c \<and> \<not> is_space c) ''yay!''" using tokenize_tokens by blast
  then show False by (simp add: is_word_def)
qed

text \<open>
  Claim C10. Every token of \<open>tokenize x\<close> is non-empty and made of word characters only (no
  punctuation, no whitespace); so the lexicon entry \<open>yay!\<close> is never a token and never adds to
  the positive count of \<open>detect_sentiment\<close>.
\<close>

theorem tokens_are_words:
  "list_all (\<lambda>t. t \<noteq> [] \<and> list_all (\<lambda>c. is_word c \<and> \<not> is_space c) t) (tokenize x) \<and>
   ''yay!'' \<notin> set (tokenize x) \<and>
   pos (detect_sentiment x) = length (filter (\<lambda>t. t \<in> POS_WORDS - {''yay!''}) (tokenize x))"
proof -
  have "filter (\<lambda>t. t \<in> POS_WORDS) (tokenize x) = filter (\<lambda>t. t \<in> POS_WORDS - {''yay!''}) (tokenize x)"
    using yay_bang_not_token[of x] by (intro filter_cong) auto
  then show ?thesis
    using tokenize_tokens[of _ x] yay_bang_not_token[of x]
    by (simp add: list_all_iff detect_sentiment_def Let_def)
qed

theorem tokens_are_words_witness:
  "tokenize ''Yay! so_good'' = [''yay'', ''so_good''] \<and>
   list_all (\<lambda>t. t \<noteq> [] \<and> list_all (\<lambda>c. is_word c \<and> \<not> is_space c) t) [''yay'', ''so_good''] \<and>
   ''yay!'' \<notin> set [''yay'', ''so_good''] \<and>
   pos (detect_sentiment ''Yay! so_good'') = 1"
proof -
  have e: "tokenize ''Yay! so_good'' = [''yay'', ''so_good'']" by code_simp
  have p: "length (filter (\<lambda>t. t \<in> POS_WORDS - {''yay!''}) [''yay'', ''so_good'']) = 1"
    by (simp add: POS_WORDS_def)
  show ?thesis using tokens_are_words[of "''Yay! so_good''"] unfolding e p by simp
qed

lemma length_filter_sum_count:
  "finite S \<Longrightarrow> length (filter (\<lambda>t. t \<in> S) xs) = (\<Sum>w\<in>S. count_list xs w)"
proof (induction xs)
  case (Cons a xs)
  have "(\<Sum>w\<in>S. count_list (a # xs) w) = (\<Sum>w\<in>S. count_list xs w + (if a = w then 1 else 0))"
    by (intro sum.cong) auto
  also have "\<dots> = (\<Sum>w\<in>S. count_list xs w) + (if a \<in> S then 1 else 0)"
    using Cons.prems by (simp add: sum.distrib)
  finally show ?case using Cons by simp
qed simp

lemma finite_POS_WORDS: "finite POS_WORDS" by (simp add: POS_WORDS_def)
lemma finite_NEG_WORDS: "finite NEG_WORDS" by (simp add: NEG_WORDS_def)

text \<open>
  Claim C5. \<open>detect_sentiment\<close> counts over the token sequence with multiplicity: the positive
  (negative) count is the number of occurrences of positive (negative) words among the tokens,
  the score is their difference, and the polarity is positive, negative or neutral exactly
  when the score is above, below or equal to zero. On \<open>good good bad\<close> the result is
  pos 2, neg 1, score 1, polarity positive.
\<close>

theorem detect_sentiment_counts:
  "pos (detect_sentiment x) = length (filter (\<lambda>t. t \<in> POS_WORDS) (tokenize x)) \<and>
   neg (detect_sentiment x) = length (filter (\<lambda>t. t \<in> NEG_WORDS) (tokenize x)) \<and>
   pos (detect_sentiment x) = (\<Sum>w\<in>POS_WORDS. count_list (tokenize x) w) \<and>
   neg (detect_sentiment x) = (\<Sum>w\<in>NEG_WORDS. count_list (tokenize x) w) \<and>
   score (detect_sentiment x) = int (pos (detect_sentiment x)) - int (neg (detect_sentiment x)) \<and>
   (polarity (detect_sentiment x) = ''positive'') = (score (detect_sentiment x) > 0) \<and>
   (polarity (detect_sentiment x) = ''negative'') = (score (detect_sentiment x) < 0) \<and>
   (polarity (detect_sentiment x) = ''neutral'') = (score (detect_sentiment x) = 0) \<and>
   detect_sentiment ''good good bad'' = \<lparr>polarity = ''positive'', score = 1, pos = 2, neg = 1\<rparr>"
proof -
  have t: "tokenize ''good good bad'' = [''good'', ''good'', ''bad'']" by code_simp
  have c: "detect_sentiment ''good good bad'' = \<lparr>polarity = ''positive'', score = 1, pos = 2, neg = 1\<rparr>"
    unfolding detect_sentiment_def t by (simp add: POS_WORDS_def NEG_WORDS_def)
  show ?thesis
    unfolding length_filter_sum_count[OF finite_POS_WORDS, symmetric]
      length_filter_sum_count[OF finite_NEG_WORDS, symmetric] c
    by (simp add: detect_sentiment_def Let_def)
qed

theorem detect_sentiment_counts_witness:
  "pos (detect_sentiment ''Bad, bad... but NICE'') = 1 \<and>
   neg (detect_sentiment ''Bad, bad... but NICE'') = 2 \<and>
   score (detect_sentiment ''Bad, bad... but NICE'') = - 1 \<and>
   polarity (detect_sentiment ''Bad, bad... but NICE'') = ''negative''"
proof -
  have t: "tokenize ''Bad, bad... but NICE'' = [''bad'', ''bad'', ''but'', ''nice'']" by code_simp
  have p: "length (filter (\<lambda>t. t \<in> POS_WORDS) [''bad'', ''bad'', ''but'', ''nice'']) = 1"
    by (simp add: POS_WORDS_def)
  have n: "length (filter (\<lambda>t. t \<in> NEG_WORDS) [''bad'', ''bad'', ''but'', ''nice'']) = 2"
    by (simp add: NEG_WORDS_def)
  show ?thesis using detect_sentiment_counts[of "''Bad, bad... but NICE''"] unfolding t p n by simp
qed

lemma emotions_loop_lookup:
  "distinct (map fst kws) \<Longrightarrow>
   emotions_loop T kws found emo =
     (case map_of kws emo of None \<Rightarrow> found emo
      | Some kwset \<Rightarrow> if T \<inter> kwset = {} then found emo else Some (card (T \<inter> kwset)))"
proof (induction kws arbitrary: found)
  case (Cons a kws)
  obtain e k where a: "a = (e, k)" by (cases a)
  from Cons.prems a have d: "distinct (map fst kws)" and n: "map_of kws e = None"
    by (auto simp: map_of_eq_None_iff)
  show ?case using Cons.IH[OF d] n unfolding a
    by (auto simp: Let_def split: option.splits)
qed simp

lemma distinct_EMOTION_KEYWORDS: "distinct (map fst EMOTION_KEYWORDS)"
  by (simp add: EMOTION_KEYWORDS_def)

text \<open>
  Claim C6. \<open>detect_emotions\<close> maps an emotion label to the number of distinct tokens in its
  trigger set exactly when that number is not zero; every other label is absent. On
  \<open>happy happy\<close> the result is the one-entry mapping joy to 1.
\<close>

theorem detect_emotions_intersections:
  "detect_emotions x emo =
     (case map_of EMOTION_KEYWORDS emo of None \<Rightarrow> None
      | Some kwset \<Rightarrow> if set (tokenize x) \<inter> kwset = {} then None
                      else Some (card (set (tokenize x) \<inter> kwset))) \<and>
   detect_emotions ''happy happy'' = [''joy'' \<mapsto> 1]"
proof -
  have t: "tokenize ''happy happy'' = [''happy'', ''happy'']" by code_simp
  have "detect_emotions ''happy happy'' = [''joy'' \<mapsto> 1]"
    unfolding detect_emotions_def t EMOTION_KEYWORDS_def by (simp add: Let_def)
  then show ?thesis
    by (simp add: detect_emotions_def emotions_loop_lookup[OF distinct_EMOTION_KEYWORDS])
qed

theorem detect_emotions_intersections_witness:
  "detect_emotions ''I HATE it, hated it; so sad!'' ''anger'' = Some 2 \<and>
   detect_emotions ''I HATE it, hated it; so sad!'' ''sadness'' = Some 1 \<and>
   detect_emotions ''I HATE it, hated it; so sad!'' ''joy'' = None \<and>
   detect_emotions ''I HATE it, hated it; so sad!'' ''boredom'' = None"
proof -
  have t: "tokenize ''I HATE it, hated it; so sad!'' = [''i'', ''hate'', ''it'', ''hated'', ''it'', ''so'', ''sad'']"
    by code_simp
  show ?thesis
    using detect_emotions_intersections[of "''I HATE it, hated it; so sad!''" "''anger''"]
      detect_emotions_intersections[of "''I HATE it, hated it; so sad!''" "''sadness''"]
      detect_emotions_intersections[of "''I HATE it, hated it; so sad!''" "''joy''"]
      detect_emotions_intersections[of "''I HATE it, hated it; so sad!''" "''boredom''"]
    unfolding t by (simp add: EMOTION_KEYWORDS_def)
qed

section \<open>Intent matching\<close>

lemma patterns_loop_ex: "patterns_loop ps text = list_ex (\<lambda>patt. re_search patt text) ps"
  by (induction ps) auto

lemma intents_loop_find:
  "intents_loop rules text =
     map_option fst (find (\<lambda>(intent, data). list_ex (\<lambda>patt. re_search patt text) (patterns data)) rules)"
  by (induction rules) (auto simp: patterns_loop_ex)

text \<open>
  Claim C8. \<open>match_intent\<close> lower-cases the raw text (punctuation stays), tries the rules in
  table order and the patterns of a rule in list order, and returns the name of the first
  rule one of whose patterns matches somewhere in the text, or \<open>None\<close> if no rule has one.
  \<open>Hello there\<close> gives greeting, \<open>xyz\<close> gives \<open>None\<close>; the third example matches only
  because the apostrophe is kept.
\<close>

theorem match_intent_first_match:
  "match_intent x =
     map_option fst
       (find (\<lambda>(intent, data). list_ex (\<lambda>patt. re_search patt (lower x)) (patterns data)) INTENTS) \<and>
   match_intent ''Hello there'' = Some ''greeting'' \<and>
   match_intent ''xyz'' = None \<and>
   match_intent ''How's it going?'' = Some ''how_are_you''"
proof -
  have a: "match_intent ''Hello there'' = Some ''greeting''" by code_simp
  have b: "match_intent ''xyz'' = None" by code_simp
  have c: "match_intent ''How's it going?'' = Some ''how_are_you''" by code_simp
  show ?thesis unfolding a b c by (simp add: match_intent_def intents_loop_find)
qed

theorem match_intent_first_match_witness:
  "match_intent ''THANKS, bye!'' = Some ''goodbye'' \<and>
   map_option fst
     (find (\<lambda>(intent, data). list_ex (\<lambda>patt. re_search patt ''thanks, bye!'') (patterns data)) INTENTS)
     = Some ''goodbye''"
proof -
  have l: "lower ''THANKS, bye!'' = ''thanks, bye!''" by code_simp
  have m: "match_intent ''THANKS, bye!'' = Some ''goodbye''" by code_simp
  show ?thesis using match_intent_first_match[of "''THANKS, bye!''"] unfolding l m by simp
qed

lemma registered_responses_nonempty:
  "map_of INTENTS key = Some data \<Longrightarrow> responses data \<noteq> []"
  by (auto simp: INTENTS_def split: if_splits)

section \<open>The token-overlap stage\<close>

lemma sorted_last_Max:
  fixes ys :: "'a::linorder list"
  assumes "sorted ys" "ys \<noteq> []"
  shows "last ys = Max (set ys)"
proof -
  have "y \<le> last ys" if "y \<in> set ys" for y
    using assms that by (induction ys) (auto split: if_splits)
  then show ?thesis using assms(2) by (intro Max_eqI[symmetric]) auto
qed

lemma hd_rev_sort_Max:
  fixes xs :: "'a::linorder list"
  assumes "xs \<noteq> []"
  shows "getitem (rev (sort xs)) 0 = Inr (Max (set xs))"
proof -
  have "sort xs \<noteq> []" using assms by (metis length_sort length_0_conv)
  then have "last (sort xs) = Max (set xs)"
    using sorted_last_Max[of "sort xs"] by simp
  moreover have "rev (sort xs) ! 0 = last (sort xs)"
    using \<open>sort xs \<noteq> []\<close> by (simp add: hd_rev flip: hd_conv_nth)
  ultimately show ?thesis using assms by (simp add: getitem_def)
qed

lemma set_overlap_scores:
  "set (overlap_scores (set (split user_norm)) questions) =
     (\<lambda>i. (token_overlap user_norm (questions ! i), i)) ` {..<length questions}"
  unfolding overlap_scores_def token_overlap_def
  by (auto simp: in_set_enumerate_eq image_iff)

lemma latest_max_index_props:
  assumes "ovs \<noteq> []"
  shows "latest_max_index ovs < length ovs"
    and "ovs ! latest_max_index ovs = Max (set ovs)"
    and "i < length ovs \<Longrightarrow> ovs ! i = Max (set ovs) \<Longrightarrow> i \<le> latest_max_index ovs"
proof -
  let ?f = "filter (\<lambda>i. ovs ! i = Max (set ovs)) [0..<length ovs]"
  have "Max (set ovs) \<in> set ovs" using assms by simp
  then obtain i0 where "i0 < length ovs" "ovs ! i0 = Max (set ovs)" by (auto simp: in_set_conv_nth)
  then have ne: "?f \<noteq> []" by (auto simp: filter_empty_conv)
  then have "last ?f \<in> set ?f" by (rule last_in_set)
  then show "latest_max_index ovs < length ovs" "ovs ! latest_max_index ovs = Max (set ovs)"
    by (simp_all add: latest_max_index_def)
  have "sorted ?f" by (intro sorted_wrt_filter) simp
  then have "last ?f = Max (set ?f)" using ne by (rule sorted_last_Max)
  moreover assume "i < length ovs" "ovs ! i = Max (set ovs)"
  then have "i \<in> set ?f" by simp
  ultimately show "i \<le> latest_max_index ovs" by (simp add: latest_max_index_def)
qed

lemma best_overlap_score:
  assumes "questions \<noteq> []" and ovs_def: "ovs = map (token_overlap user_norm) questions"
  shows "getitem (rev (sort (overlap_scores (set (split user_norm)) questions))) 0 =
     Inr (Max (set ovs), latest_max_index ovs)"
proof -
  let ?S = "overlap_scores (set (split user_norm)) questions"
  have ne: "ovs \<noteq> []" and len: "length ovs = length questions" using assms by simp_all
  note p = latest_max_index_props[OF ne]
  have in_S: "(Max (set ovs), latest_max_index ovs) \<in> set ?S"
    unfolding set_overlap_scores using p(1,2) len by (auto simp: ovs_def image_iff)
  have "s \<le> (Max (set ovs), latest_max_index ovs)" if "s \<in> set ?S" for s
  proof -
    from that obtain i where i: "i < length questions" "s = (token_overlap user_norm (questions ! i), i)"
      unfolding set_overlap_scores by auto
    then have o: "fst s = ovs ! i" by (simp add: ovs_def)
    then have "fst s \<le> Max (set ovs)" using i len by simp
    moreover have "snd s \<le> latest_max_index ovs" if "fst s = Max (set ovs)"
      using p(3)[of i] that o i len by simp
    ultimately show ?thesis
      by (cases "fst s = Max (set ovs)") (auto simp: less_eq_prod_def prod_eq_iff)
  qed
  then have "Max (set ?S) = (Max (set ovs), latest_max_index ovs)"
    using in_S by (intro Max_eqI) auto
  moreover have "?S \<noteq> []" using assms(1) by (cases questions) (simp_all add: overlap_scores_def)
  ultimately show ?thesis using hd_rev_sort_Max[of ?S] by simp
qed

lemma overlap_stage_eq:
  assumes "kb_data \<noteq> []"
    and qs: "questions = map (\<lambda>entry. normalize (question entry)) kb_data"
    and ovs: "ovs = map (token_overlap user_norm) questions"
    and w: "w = latest_max_index ovs"
  shows "overlap_stage user_norm questions kb_data cutoff =
     (if token_overlap user_norm (questions ! w) > 0 \<and> overlap_ratio user_norm (questions ! w) \<ge> cutoff
      then Inr (Some (answer (kb_data ! w))) else Inr None)"
proof -
  have ne: "questions \<noteq> []" "ovs \<noteq> []" using assms by simp_all
  have len: "length ovs = length questions" "length questions = length kb_data"
    using qs ovs by simp_all
  note p = latest_max_index_props[OF ne(2)]
  have wl: "w < length questions" using p(1) w len by simp
  have m: "Max (set ovs) = token_overlap user_norm (questions ! w)"
    using p(2) wl w ovs by simp
  have g: "getitem (rev (sort (overlap_scores (set (split user_norm)) questions))) 0 =
      Inr (token_overlap user_norm (questions ! w), w)"
    using best_overlap_score[OF ne(1) ovs] m w by simp
  show ?thesis
    unfolding overlap_stage_def Let_def g
    using wl len by (simp add: getitem_def overlap_ratio_def token_overlap_def)
qed

lemma overlap_stage_winner:
  assumes "kb_data \<noteq> []"
  shows "stage1_winner user_input kb_data < length kb_data"
    and "overlap_stage (normalize user_input) (map (\<lambda>entry. normalize (question entry)) kb_data)
        kb_data cutoff =
      (if token_overlap (normalize user_input)
            (normalize (question (kb_data ! stage1_winner user_input kb_data))) > 0 \<and>
          overlap_ratio (normalize user_input)
            (normalize (question (kb_data ! stage1_winner user_input kb_data))) \<ge> cutoff
       then Inr (Some (answer (kb_data ! stage1_winner user_input kb_data)))
       else Inr None)"
proof -
  let ?u = "normalize user_input"
  let ?qs = "map (\<lambda>entry. normalize (question entry)) kb_data"
  let ?ovs = "map (token_overlap ?u) ?qs"
  let ?w = "stage1_winner user_input kb_data"
  have w: "?w = latest_max_index ?ovs" by (simp add: stage1_winner_def comp_def)
  have ne: "?ovs \<noteq> []" using assms by simp
  show wl: "?w < length kb_data" using latest_max_index_props(1)[OF ne, folded w] by simp
  have st: "overlap_stage ?u ?qs kb_data cutoff =
      (if token_overlap ?u (?qs ! ?w) > 0 \<and> overlap_ratio ?u (?qs ! ?w) \<ge> cutoff
       then Inr (Some (answer (kb_data ! ?w))) else Inr None)"
    by (rule overlap_stage_eq[OF assms refl refl w])
  have qw: "?qs ! ?w = normalize (question (kb_data ! ?w))" using wl by simp
  show "overlap_stage ?u ?qs kb_data cutoff =
      (if token_overlap ?u (normalize (question (kb_data ! ?w))) > 0 \<and>
          overlap_ratio ?u (normalize (question (kb_data ! ?w))) \<ge> cutoff
       then Inr (Some (answer (kb_data ! ?w))) else Inr None)"
    using st unfolding qw .
qed

lemma list_index_mem:
  "x \<in> set xs \<Longrightarrow> \<exists>i. list_index xs x = Inr i \<and> i < length xs \<and> xs ! i = x \<and> (\<forall>j<i. xs ! j \<noteq> x)"
proof (induction xs)
  case (Cons y ys)
  show ?case
  proof (cases "y = x")
    case True
    then show ?thesis by simp
  next
    case False
    with Cons obtain i where i: "list_index ys x = Inr i" "i < length ys" "ys ! i = x"
      "\<forall>j<i. ys ! j \<noteq> x" by auto
    have "\<forall>j<Suc i. (y # ys) ! j \<noteq> x"
      using False i(4) by (auto simp: nth_Cons split: nat.splits)
    with False i show ?thesis by simp
  qed
qed simp

lemma get_close_matches_members:
  "\<exists>ms. get_close_matches word possibilities 1 (7 / 10) = Inr ms \<and> set ms \<subseteq> set possibilities"
proof -
  let ?res = "map (\<lambda>x. (ratio x word, x))
      (filter (\<lambda>x. real_quick_ratio x word \<ge> 7 / 10 \<and> quick_ratio x word \<ge> 7 / 10 \<and>
                    ratio x word \<ge> 7 / 10) possibilities)"
  have "set (map snd (nlargest 1 ?res)) \<subseteq> snd ` set ?res"
    unfolding nlargest_def using set_take_subset[of "nat 1" "rev (sort ?res)"] by auto
  also have "\<dots> \<subseteq> set possibilities" by auto
  finally show ?thesis by (simp add: get_close_matches_def Let_def)
qed

lemma fallback_stage_no_error:
  assumes "length questions = length kb_data"
  shows "\<exists>r. fallback_stage (\<lambda>word possibilities. get_close_matches word possibilities 1 (7 / 10))
           user_norm questions kb_data = Inr r"
proof -
  obtain ms where ms: "get_close_matches user_norm questions 1 (7 / 10) = Inr ms"
    and sub: "set ms \<subseteq> set questions" using get_close_matches_members by blast
  show ?thesis
  proof (cases ms)
    case Nil
    show ?thesis unfolding fallback_stage_def ms Nil by simp
  next
    case (Cons q rest)
    then have "q \<in> set questions" using sub by auto
    from list_index_mem[OF this]
    obtain i where i: "list_index questions q = Inr i" "i < length questions"
      by blast
    have g: "getitem (q # rest) 0 = Inr q" by (simp add: getitem_def)
    have k: "getitem kb_data i = Inr (kb_data ! i)" using i(2) assms by (simp add: getitem_def)
    show ?thesis unfolding fallback_stage_def ms Cons by (simp add: g i(1) k)
  qed
qed

lemma find_in_kb_no_error: "\<exists>r. find_in_kb user_input kb_data cutoff = Inr r"
proof (cases "kb_data = []")
  case True
  then show ?thesis by (simp add: find_in_kb_def find_in_kb_with_def)
next
  case False
  let ?qs = "map (\<lambda>entry. normalize (question entry)) kb_data"
  obtain r where r: "fallback_stage (\<lambda>word possibilities. get_close_matches word possibilities 1 (7 / 10))
           (normalize user_input) ?qs kb_data = Inr r"
    using fallback_stage_no_error[of ?qs kb_data] by auto
  show ?thesis
    unfolding find_in_kb_def find_in_kb_with_def Let_def
      overlap_stage_eq[OF False refl refl refl]
    using False r by simp
qed

section \<open>Claims about the knowledge base search\<close>

text \<open>
  Claim C1, as the code has it. For a non-empty knowledge base the token-overlap stage
  selects a record of maximal overlap with the query, and among the records of maximal
  overlap it selects the latest one in the supplied order; an answer returned by this stage
  is the answer of that record. (The pairs (overlap, index) are sorted in descending order,
  so that among equal overlaps the greatest index comes first.)
\<close>

theorem overlap_stage_selects_latest_maximal:
  assumes "kb_data \<noteq> []"
  shows "stage1_winner user_input kb_data < length kb_data \<and>
    (\<forall>i<length kb_data.
       token_overlap (normalize user_input) (normalize (question (kb_data ! i)))
       \<le> token_overlap (normalize user_input)
            (normalize (question (kb_data ! stage1_winner user_input kb_data)))) \<and>
    (\<forall>i<length kb_data.
       token_overlap (normalize user_input) (normalize (question (kb_data ! i)))
       = token_overlap (normalize user_input)
            (normalize (question (kb_data ! stage1_winner user_input kb_data)))
       \<longrightarrow> i \<le> stage1_winner user_input kb_data) \<and>
    overlap_stage (normalize user_input) (map (\<lambda>entry. normalize (question entry)) kb_data)
        kb_data cutoff =
      (if token_overlap (normalize user_input)
            (normalize (question (kb_data ! stage1_winner user_input kb_data))) > 0 \<and>
          overlap_ratio (normalize user_input)
            (normalize (question (kb_data ! stage1_winner user_input kb_data))) \<ge> cutoff
       then Inr (Some (answer (kb_data ! stage1_winner user_input kb_data)))
       else Inr None)"
proof -
  let ?u = "normalize user_input"
  let ?qs = "map (\<lambda>entry. normalize (question entry)) kb_data"
  let ?ovs = "map (token_overlap ?u) ?qs"
  let ?w = "stage1_winner user_input kb_data"
  have w: "?w = latest_max_index ?ovs" by (simp add: stage1_winner_def comp_def)
  have ne: "?ovs \<noteq> []" using assms by simp
  note p = latest_max_index_props[OF ne, folded w]
  have wl: "?w < length kb_data" using p(1) by simp
  have nth: "?ovs ! i = token_overlap ?u (normalize (question (kb_data ! i)))"
    if "i < length kb_data" for i using that by simp
  have mx: "Max (set ?ovs) = token_overlap ?u (normalize (question (kb_data ! ?w)))"
    using p(2) nth[OF wl] by simp
  have le: "token_overlap ?u (normalize (question (kb_data ! i))) \<le> Max (set ?ovs)"
    if "i < length kb_data" for i
  proof -
    have "?ovs ! i \<in> set ?ovs" using that by (intro nth_mem) simp
    then have "?ovs ! i \<le> Max (set ?ovs)" by simp
    then show ?thesis using nth[OF that] by simp
  qed
  have latest: "i \<le> ?w"
    if "i < length kb_data" "token_overlap ?u (normalize (question (kb_data ! i))) = Max (set ?ovs)" for i
    using p(3)[of i] that nth[OF that(1)] by simp
  have st: "overlap_stage ?u ?qs kb_data cutoff =
      (if token_overlap ?u (?qs ! ?w) > 0 \<and> overlap_ratio ?u (?qs ! ?w) \<ge> cutoff
       then Inr (Some (answer (kb_data ! ?w))) else Inr None)"
    by (rule overlap_stage_eq[OF assms refl refl w])
  have qw: "?qs ! ?w = normalize (question (kb_data ! ?w))" using wl by simp
  show ?thesis using wl le latest st unfolding mx qw by simp
qed

theorem overlap_stage_selects_latest_maximal_witness:
  "stage1_winner ''how to resize''
     [\<lparr>question = ''How to resize images?'', answer = ''A1''\<rparr>,
      \<lparr>question = ''How to resize photos?'', answer = ''A2''\<rparr>] = 1 \<and>
   overlap_stage (normalize ''how to resize'')
     (map (\<lambda>entry. normalize (question entry))
       [\<lparr>question = ''How to resize images?'', answer = ''A1''\<rparr>,
        \<lparr>question = ''How to resize photos?'', answer = ''A2''\<rparr>])
     [\<lparr>question = ''How to resize images?'', answer = ''A1''\<rparr>,
      \<lparr>question = ''How to resize photos?'', answer = ''A2''\<rparr>] (6 / 10) = Inr (Some ''A2'')"
proof -
  let ?kb = "[\<lparr>question = ''How to resize images?'', answer = ''A1''\<rparr>,
      \<lparr>question = ''How to resize photos?'', answer = ''A2''\<rparr>]"
  have ne: "?kb \<noteq> []" by simp
  have w: "stage1_winner ''how to resize'' ?kb = 1" by code_simp
  have o: "token_overlap (normalize ''how to resize'') (normalize ''How to resize photos?'') = 3"
    by code_simp
  have r: "overlap_ratio (normalize ''how to resize'') (normalize ''How to resize photos?'') = 3 / 4"
    by code_simp
  show ?thesis
    using overlap_stage_selects_latest_maximal[OF ne, of "''how to resize''" "6 / 10"]
    unfolding w by (simp add: o r)
qed

text \<open>
  Two records with the same overlap 3 and the same overlap ratio 3/4 with the query: the
  earliest record of maximal overlap is the first one, and the answer returned is that of
  the second.
\<close>

theorem earliest_record_not_selected:
  "token_overlap (normalize ''how to resize'') (normalize ''How to resize images?'') = 3 \<and>
   token_overlap (normalize ''how to resize'') (normalize ''How to resize photos?'') = 3 \<and>
   overlap_ratio (normalize ''how to resize'') (normalize ''How to resize images?'') = 3 / 4 \<and>
   earliest_max_index [3, 3] = 0 \<and>
   find_in_kb ''how to resize''
     [\<lparr>question = ''How to resize images?'', answer = ''A1''\<rparr>,
      \<lparr>question = ''How to resize photos?'', answer = ''A2''\<rparr>] (6 / 10) = Inr (Some ''A2'')"
  by code_simp

text \<open>
  Claim C2. If the record selected by the token-overlap stage has a positive overlap and its
  overlap divided by \<open>max(1, number of distinct question tokens)\<close> reaches the cutoff, then
  \<open>find_in_kb\<close> returns the answer of that record, whatever the fuzzy matcher of the fallback
  would do: the fallback is not consulted.
\<close>

theorem overlap_success_skips_fallback:
  assumes "kb_data \<noteq> []"
    and "token_overlap (normalize user_input)
           (normalize (question (kb_data ! stage1_winner user_input kb_data))) > 0"
    and "overlap_ratio (normalize user_input)
           (normalize (question (kb_data ! stage1_winner user_input kb_data))) \<ge> cutoff"
  shows "find_in_kb_with close_matches user_input kb_data cutoff =
           Inr (Some (answer (kb_data ! stage1_winner user_input kb_data))) \<and>
         find_in_kb user_input kb_data cutoff =
           Inr (Some (answer (kb_data ! stage1_winner user_input kb_data)))"
proof -
  have "overlap_stage (normalize user_input) (map (\<lambda>entry. normalize (question entry)) kb_data)
        kb_data cutoff = Inr (Some (answer (kb_data ! stage1_winner user_input kb_data)))"
    using overlap_stage_eq[OF assms(1) refl refl refl, of "normalize user_input" cutoff]
      assms(1,2,3) latest_max_index_props(1)[of "map (token_overlap (normalize user_input))
        (map (\<lambda>entry. normalize (question entry)) kb_data)"]
    by (simp add: stage1_winner_def comp_def)
  then show ?thesis using assms(1) by (simp add: find_in_kb_def find_in_kb_with_def)
qed

theorem overlap_success_skips_fallback_witness:
  "find_in_kb ''Resize images!''
     [\<lparr>question = ''resize imagez'', answer = ''S''\<rparr>,
      \<lparr>question = ''Resize'', answer = ''T''\<rparr>] (6 / 10) = Inr (Some ''T'') \<and>
   find_in_kb_with (\<lambda>word possibilities. Inl ValueError) ''Resize images!''
     [\<lparr>question = ''resize imagez'', answer = ''S''\<rparr>,
      \<lparr>question = ''Resize'', answer = ''T''\<rparr>] (6 / 10) = Inr (Some ''T'') \<and>
   fallback_stage (\<lambda>word possibilities. get_close_matches word possibilities 1 (7 / 10))
     ''resize images'' [''resize imagez'', ''resize'']
     [\<lparr>question = ''resize imagez'', answer = ''S''\<rparr>,
      \<lparr>question = ''Resize'', answer = ''T''\<rparr>] = Inr (Some ''S'')"
proof -
  let ?kb = "[\<lparr>question = ''resize imagez'', answer = ''S''\<rparr>,
      \<lparr>question = ''Resize'', answer = ''T''\<rparr>]"
  have ne: "?kb \<noteq> []" by simp
  have w: "stage1_winner ''Resize images!'' ?kb = 1" by code_simp
  have o: "token_overlap (normalize ''Resize images!'') (normalize ''Resize'') > 0" by code_simp
  have r: "overlap_ratio (normalize ''Resize images!'') (normalize ''Resize'') \<ge> 6 / 10"
    by code_simp
  have f: "fallback_stage (\<lambda>word possibilities. get_close_matches word possibilities 1 (7 / 10))
     ''resize images'' [''resize imagez'', ''resize''] ?kb = Inr (Some ''S'')" by code_simp
  have h: "token_overlap (normalize ''Resize images!'')
      (normalize (question (?kb ! stage1_winner ''Resize images!'' ?kb))) > 0"
    "overlap_ratio (normalize ''Resize images!'')
      (normalize (question (?kb ! stage1_winner ''Resize images!'' ?kb))) \<ge> 6 / 10"
    unfolding w using o r by simp_all
  show ?thesis
    using overlap_success_skips_fallback[OF ne h, of "\<lambda>word possibilities. Inl ValueError"] f
    unfolding w by simp
qed

lemma get_close_matches_none:
  assumes "\<forall>x\<in>set possibilities. ratio x word < 7 / 10"
  shows "get_close_matches word possibilities 1 (7 / 10) = Inr []"
proof -
  have "filter (\<lambda>x. real_quick_ratio x word \<ge> 7 / 10 \<and> quick_ratio x word \<ge> 7 / 10 \<and>
                    ratio x word \<ge> 7 / 10) possibilities = []"
    using assms by (auto simp: filter_empty_conv)
  then show ?thesis by (simp add: get_close_matches_def nlargest_def)
qed

text \<open>
  Claim C4. On an empty knowledge base \<open>find_in_kb\<close> returns \<open>None\<close>; it never raises; and
  when the token-overlap stage does not succeed and no normalized question has a similarity
  ratio of at least 0.7 with the normalized query, the result is \<open>None\<close>.
\<close>

theorem find_in_kb_none_is_normal:
  "find_in_kb user_input [] cutoff = Inr None \<and>
   (\<exists>r. find_in_kb user_input kb_data cutoff = Inr r) \<and>
   ((kb_data \<noteq> [] \<longrightarrow>
       \<not> (token_overlap (normalize user_input)
             (normalize (question (kb_data ! stage1_winner user_input kb_data))) > 0 \<and>
          overlap_ratio (normalize user_input)
             (normalize (question (kb_data ! stage1_winner user_input kb_data))) \<ge> cutoff)) \<and>
    (\<forall>entry\<in>set kb_data. ratio (normalize (question entry)) (normalize user_input) < 7 / 10)
    \<longrightarrow> find_in_kb user_input kb_data cutoff = Inr None)"
proof (intro conjI impI)
  show "find_in_kb user_input [] cutoff = Inr None"
    by (simp add: find_in_kb_def find_in_kb_with_def)
  show "\<exists>r. find_in_kb user_input kb_data cutoff = Inr r" by (rule find_in_kb_no_error)
next
  let ?u = "normalize user_input"
  let ?qs = "map (\<lambda>entry. normalize (question entry)) kb_data"
  assume a: "(kb_data \<noteq> [] \<longrightarrow>
       \<not> (token_overlap ?u (normalize (question (kb_data ! stage1_winner user_input kb_data))) > 0 \<and>
          overlap_ratio ?u (normalize (question (kb_data ! stage1_winner user_input kb_data))) \<ge> cutoff)) \<and>
    (\<forall>entry\<in>set kb_data. ratio (normalize (question entry)) ?u < 7 / 10)"
  show "find_in_kb user_input kb_data cutoff = Inr None"
  proof (cases "kb_data = []")
    case True
    then show ?thesis by (simp add: find_in_kb_def find_in_kb_with_def)
  next
    case False
    have s1: "overlap_stage ?u ?qs kb_data cutoff = Inr None"
      using overlap_stage_winner(2)[OF False, of user_input cutoff] a False by simp
    have "get_close_matches ?u ?qs 1 (7 / 10) = Inr []"
      using a by (intro get_close_matches_none) simp
    then have s2: "fallback_stage (\<lambda>word possibilities. get_close_matches word possibilities 1 (7 / 10))
        ?u ?qs kb_data = Inr None"
      by (simp add: fallback_stage_def)
    show ?thesis using False unfolding find_in_kb_def find_in_kb_with_def Let_def s1 s2 by simp
  qed
qed

theorem find_in_kb_none_is_normal_witness:
  "find_in_kb ''completely unrelated text'' [] (6 / 10) = Inr None \<and>
   find_in_kb ''completely unrelated text''
     [\<lparr>question = ''how to resize images'', answer = ''A1''\<rparr>,
      \<lparr>question = ''what is flask'', answer = ''A2''\<rparr>] (6 / 10) = Inr None"
proof -
  let ?kb = "[\<lparr>question = ''how to resize images'', answer = ''A1''\<rparr>,
      \<lparr>question = ''what is flask'', answer = ''A2''\<rparr>]"
  have w: "stage1_winner ''completely unrelated text'' ?kb = 1" by code_simp
  have o: "token_overlap (normalize ''completely unrelated text'') (normalize ''what is flask'') = 0"
    by code_simp
  have r: "ratio (normalize ''how to resize images'') (normalize ''completely unrelated text'') < 7 / 10"
    "ratio (normalize ''what is flask'') (normalize ''completely unrelated text'') < 7 / 10"
    by code_simp+
  have h: "(?kb \<noteq> [] \<longrightarrow>
       \<not> (token_overlap (normalize ''completely unrelated text'')
             (normalize (question (?kb ! stage1_winner ''completely unrelated text'' ?kb))) > 0 \<and>
          overlap_ratio (normalize ''completely unrelated text'')
             (normalize (question (?kb ! stage1_winner ''completely unrelated text'' ?kb))) \<ge> 6 / 10)) \<and>
    (\<forall>entry\<in>set ?kb. ratio (normalize (question entry)) (normalize ''completely unrelated text'') < 7 / 10)"
    unfolding w using o r by simp
  show ?thesis
    using find_in_kb_none_is_normal[of "''completely unrelated text''" "6 / 10" ?kb] h
    by blast
qed

section \<open>The three ratios are ordered\<close>

text \<open>\<open>slice xs lo hi\<close> is \<open>xs[lo:hi]\<close>; \<open>sizes\<close> adds up the lengths of matching blocks;
  \<open>common a b w\<close> is the number of elements that the two windows of \<open>w\<close> share, counted
  with multiplicity.\<close>

definition slice :: "'a list \<Rightarrow> nat \<Rightarrow> nat \<Rightarrow> 'a list" where
  "slice xs lo hi = take (hi - lo) (drop lo xs)"

definition sizes :: "match list \<Rightarrow> nat" where
  "sizes ms = sum_list (map (\<lambda>(i, j, k). k) ms)"

definition wf_window :: "string \<Rightarrow> string \<Rightarrow> nat \<times> nat \<times> nat \<times> nat \<Rightarrow> bool" where
  "wf_window a b w =
     (case w of (alo, ahi, blo, bhi) \<Rightarrow> alo \<le> ahi \<and> ahi \<le> length a \<and> blo \<le> bhi \<and> bhi \<le> length b)"

definition common :: "string \<Rightarrow> string \<Rightarrow> nat \<times> nat \<times> nat \<times> nat \<Rightarrow> nat" where
  "common a b w =
     (case w of (alo, ahi, blo, bhi) \<Rightarrow> size (mset (slice a alo ahi) \<inter># mset (slice b blo bhi)))"

lemma slice_split:
  "lo \<le> mid \<Longrightarrow> mid \<le> hi \<Longrightarrow> slice xs lo hi = slice xs lo mid @ slice xs mid hi"
proof -
  assume a: "lo \<le> mid" "mid \<le> hi"
  then have "hi - lo = (mid - lo) + (hi - mid)" by simp
  then have "take (hi - lo) (drop lo xs) =
      take (mid - lo) (drop lo xs) @ take (hi - mid) (drop (mid - lo) (drop lo xs))"
    by (simp only: take_add)
  then show ?thesis using a by (simp add: slice_def)
qed

lemma slice_eq:
  assumes "i + k \<le> length a" "j + k \<le> length b" "\<forall>t<k. a ! (i + t) = b ! (j + t)"
  shows "slice a i (i + k) = slice b j (j + k)"
proof (rule nth_equalityI)
  show "length (slice a i (i + k)) = length (slice b j (j + k))"
    using assms by (simp add: slice_def)
  fix t assume "t < length (slice a i (i + k))"
  then have "t < k" by (simp add: slice_def)
  then show "slice a i (i + k) ! t = slice b j (j + k) ! t"
    using assms by (simp add: slice_def)
qed

lemma inter_three:
  "size (A1 \<inter># B1) + size M + size (A3 \<inter># B3)
     \<le> size ((A1 + M + A3) \<inter># (B1 + M + B3))"
proof -
  let ?X = "(A1 \<inter># B1) + M + (A3 \<inter># B3)"
  have "?X \<subseteq># A1 + M + A3" by (intro mset_subset_eq_mono_add) simp_all
  moreover have "?X \<subseteq># B1 + M + B3" by (intro mset_subset_eq_mono_add) simp_all
  ultimately have "?X \<subseteq># (A1 + M + A3) \<inter># (B1 + M + B3)" by simp
  then have "size ?X \<le> size ((A1 + M + A3) \<inter># (B1 + M + B3))" by (rule size_mset_mono)
  then show ?thesis by simp
qed

lemma window_split:
  assumes g: "good_match a b alo ahi blo bhi (i, j, k)" and k: "k \<noteq> 0"
    and w: "wf_window a b (alo, ahi, blo, bhi)"
  shows "k + common a b (i + k, ahi, j + k, bhi) + common a b (alo, i, blo, j)
           \<le> common a b (alo, ahi, blo, bhi)"
proof -
  from g k have r: "alo \<le> i" "blo \<le> j" "i + k \<le> ahi" "j + k \<le> bhi"
    and m: "\<forall>t<k. a ! (i + t) = b ! (j + t)" by (simp_all add: good_match_def)
  from w have l: "ahi \<le> length a" "bhi \<le> length b" by (simp_all add: wf_window_def)
  have sa: "slice a alo ahi = slice a alo i @ slice a i (i + k) @ slice a (i + k) ahi"
    using slice_split[of alo i ahi a] slice_split[of i "i + k" ahi a] r by simp
  have sb: "slice b blo bhi = slice b blo j @ slice b j (j + k) @ slice b (j + k) bhi"
    using slice_split[of blo j bhi b] slice_split[of j "j + k" bhi b] r by simp
  have e: "slice a i (i + k) = slice b j (j + k)"
    using r l m by (intro slice_eq) simp_all
  have len: "length (slice b j (j + k)) = k" using r l by (simp add: slice_def)
  have "size (mset (slice a alo i) \<inter># mset (slice b blo j)) + size (mset (slice b j (j + k)))
        + size (mset (slice a (i + k) ahi) \<inter># mset (slice b (j + k) bhi))
      \<le> size ((mset (slice a alo i) + mset (slice b j (j + k)) + mset (slice a (i + k) ahi))
          \<inter># (mset (slice b blo j) + mset (slice b j (j + k)) + mset (slice b (j + k) bhi)))"
    by (rule inter_three)
  then show ?thesis unfolding common_def prod.case sa sb e using len by (simp add: ac_simps)
qed

lemma sizes_append: "sizes (xs @ ys) = sizes xs + sizes ys"
  by (simp add: sizes_def)

lemma blocks_loop_bound:
  "\<forall>q\<in>set queue. wf_window a b q \<Longrightarrow>
   sizes (blocks_loop a b queue acc) \<le> sizes acc + sum_list (map (common a b) queue)"
proof (induction a b queue acc rule: blocks_loop.induct)
  case (1 a b matching_blocks)
  then show ?case by (simp add: blocks_loop.simps)
next
  case (2 a b alo ahi blo bhi queue acc)
  obtain i j k where f: "find_longest_match a b alo ahi blo bhi = (i, j, k)"
    by (cases "find_longest_match a b alo ahi blo bhi")
  have g: "good_match a b alo ahi blo bhi (i, j, k)"
    using find_longest_match_good[of a b alo ahi blo bhi] f by simp
  have w: "wf_window a b (alo, ahi, blo, bhi)" and wq: "\<forall>q\<in>set queue. wf_window a b q"
    using "2.prems" by simp_all
  show ?case
  proof (cases "k = 0")
    case True
    have "blocks_loop a b ((alo, ahi, blo, bhi) # queue) acc = blocks_loop a b queue acc"
      using f True by (simp add: blocks_loop.simps)
    moreover have "sizes (blocks_loop a b queue acc) \<le> sizes acc + sum_list (map (common a b) queue)"
      using "2.IH"(2)[OF f[symmetric] refl refl _ wq] True by simp
    ultimately show ?thesis by simp
  next
    case False
    let ?R = "if i + k < ahi \<and> j + k < bhi then [(i + k, ahi, j + k, bhi)] else []"
    let ?L = "if alo < i \<and> blo < j then [(alo, i, blo, j)] else []"
    from g False have r: "alo \<le> i" "blo \<le> j" "i + k \<le> ahi" "j + k \<le> bhi"
      by (simp_all add: good_match_def)
    have wn: "\<forall>q\<in>set (?R @ ?L @ queue). wf_window a b q"
      using w wq r by (auto simp: wf_window_def)
    have step: "blocks_loop a b ((alo, ahi, blo, bhi) # queue) acc =
        blocks_loop a b (?R @ ?L @ queue) (acc @ [(i, j, k)])"
      using f False by (simp add: blocks_loop.simps)
    have "sizes (blocks_loop a b (?R @ ?L @ queue) (acc @ [(i, j, k)]))
        \<le> sizes (acc @ [(i, j, k)]) + sum_list (map (common a b) (?R @ ?L @ queue))"
      using "2.IH"(1)[OF f[symmetric] refl refl False wn] .
    also have "sizes (acc @ [(i, j, k)]) = sizes acc + k" by (simp add: sizes_def)
    also have "sum_list (map (common a b) (?R @ ?L @ queue))
        \<le> common a b (i + k, ahi, j + k, bhi) + common a b (alo, i, blo, j)
          + sum_list (map (common a b) queue)" by simp
    finally have "sizes (blocks_loop a b (?R @ ?L @ queue) (acc @ [(i, j, k)]))
        \<le> sizes acc + (k + common a b (i + k, ahi, j + k, bhi) + common a b (alo, i, blo, j))
          + sum_list (map (common a b) queue)" by simp
    also have "\<dots> \<le> sizes acc + common a b (alo, ahi, blo, bhi) + sum_list (map (common a b) queue)"
      using window_split[OF g False w] by simp
    finally show ?thesis unfolding step by simp
  qed
qed

lemma collapse_loop_sizes:
  "collapse_loop rest cur non_adjacent = (fin, res) \<Longrightarrow>
   snd (snd fin) + sizes res = snd (snd cur) + sizes non_adjacent + sizes rest"
proof (induction rest cur non_adjacent rule: collapse_loop.induct)
  case (1 i1 j1 k1 non_adjacent)
  then show ?case by (auto simp: sizes_def)
next
  case (2 i2 j2 k2 rest i1 j1 k1 non_adjacent)
  show ?case
  proof (cases "i1 + k1 = i2 \<and> j1 + k1 = j2")
    case True
    with 2 show ?thesis by (simp add: sizes_def)
  next
    case False
    with 2 show ?thesis by (auto simp: sizes_def split: if_splits)
  qed
qed

lemma sizes_sort: "sizes (sort ms) = sizes ms"
proof -
  have "sum_list (map (\<lambda>(i, j, k). k) (sort ms)) =
      sum_mset (image_mset (\<lambda>(i, j, k). k) (mset (sort ms)))"
    by (simp flip: sum_mset_sum_list)
  also have "\<dots> = sum_list (map (\<lambda>(i, j, k). k) ms)"
    by (simp flip: sum_mset_sum_list)
  finally show ?thesis by (simp add: sizes_def)
qed

lemma sizes_get_matching_blocks:
  "sizes (get_matching_blocks a b) = sizes (blocks_loop a b [(0, length a, 0, length b)] [])"
proof -
  let ?mb = "sort (blocks_loop a b [(0, length a, 0, length b)] [])"
  obtain i1 j1 k1 res where c: "collapse_loop ?mb (0, 0, 0) [] = ((i1, j1, k1), res)"
    by (metis prod_cases3 surj_pair)
  from collapse_loop_sizes[OF c] have "k1 + sizes res = sizes ?mb" by (simp add: sizes_def)
  then have "sizes ((if k1 \<noteq> 0 then res @ [(i1, j1, k1)] else res) @ [(length a, length b, 0)])
      = sizes ?mb" by (simp add: sizes_def)
  then show ?thesis unfolding get_matching_blocks_def Let_def c by (simp add: sizes_sort)
qed

lemma matches_le_common: "sizes (get_matching_blocks a b) \<le> size (mset a \<inter># mset b)"
proof -
  have "sizes (blocks_loop a b [(0, length a, 0, length b)] [])
      \<le> sizes [] + sum_list (map (common a b) [(0, length a, 0, length b)])"
    by (intro blocks_loop_bound) (simp add: wf_window_def)
  then show ?thesis unfolding sizes_get_matching_blocks by (simp add: sizes_def common_def slice_def)
qed

lemma quick_loop_common:
  assumes "\<forall>c. int (count R c) = max 0 (case avail c of Some v \<Rightarrow> v | None \<Rightarrow> int (fullbcount c))"
  shows "quick_loop xs fullbcount avail matches = matches + size (mset xs \<inter># R)"
  using assms
proof (induction xs arbitrary: avail matches R)
  case Nil
  then show ?case by simp
next
  case (Cons elt rest)
  define numb where "numb = (case avail elt of Some v \<Rightarrow> v | None \<Rightarrow> int (fullbcount elt))"
  have cnt: "int (count R elt) = max 0 numb" using Cons.prems by (simp add: numb_def)
  have step: "quick_loop (elt # rest) fullbcount avail matches =
      quick_loop rest fullbcount (avail(elt \<mapsto> numb - 1)) (if numb > 0 then matches + 1 else matches)"
    by (simp add: numb_def Let_def)
  show ?case
  proof (cases "numb > 0")
    case True
    then have mem: "elt \<in># R" using cnt by (simp add: count_greater_zero_iff[symmetric] del: count_greater_zero_iff)
    have inv: "\<forall>c. int (count (R - {#elt#}) c) =
        max 0 (case (avail(elt \<mapsto> numb - 1)) c of Some v \<Rightarrow> v | None \<Rightarrow> int (fullbcount c))"
    proof
      fix c
      show "int (count (R - {#elt#}) c) =
        max 0 (case (avail(elt \<mapsto> numb - 1)) c of Some v \<Rightarrow> v | None \<Rightarrow> int (fullbcount c))"
      proof (cases "c = elt")
        case True
        have "count R elt \<ge> 1" using mem by (simp add: Suc_le_eq)
        then have "int (count (R - {#elt#}) elt) = int (count R elt) - 1" by simp
        then show ?thesis using True \<open>numb > 0\<close> cnt by simp
      next
        case False
        then show ?thesis using Cons.prems by simp
      qed
    qed
    have "quick_loop rest fullbcount (avail(elt \<mapsto> numb - 1)) (matches + 1) =
        matches + 1 + size (mset rest \<inter># (R - {#elt#}))"
      by (rule Cons.IH[OF inv])
    moreover have "mset (elt # rest) \<inter># R = add_mset elt (mset rest \<inter># (R - {#elt#}))"
      using mem by (simp add: inter_add_left2)
    ultimately show ?thesis unfolding step using True by simp
  next
    case False
    then have nmem: "elt \<notin># R" using cnt by (simp add: not_in_iff)
    have inv: "\<forall>c. int (count R c) =
        max 0 (case (avail(elt \<mapsto> numb - 1)) c of Some v \<Rightarrow> v | None \<Rightarrow> int (fullbcount c))"
    proof
      fix c
      show "int (count R c) =
        max 0 (case (avail(elt \<mapsto> numb - 1)) c of Some v \<Rightarrow> v | None \<Rightarrow> int (fullbcount c))"
      proof (cases "c = elt")
        case True
        then show ?thesis using False cnt by simp
      next
        case False
        then show ?thesis using Cons.prems by simp
      qed
    qed
    have "quick_loop rest fullbcount (avail(elt \<mapsto> numb - 1)) matches =
        matches + size (mset rest \<inter># R)"
      by (rule Cons.IH[OF inv])
    moreover have "mset (elt # rest) \<inter># R = mset rest \<inter># R"
      using nmem by (simp add: inter_add_left1)
    ultimately show ?thesis unfolding step using False by simp
  qed
qed

lemma quick_loop_eq: "quick_loop a (count_list b) Map.empty 0 = size (mset a \<inter># mset b)"
  using quick_loop_common[where R = "mset b" and avail = Map.empty and fullbcount = "count_list b"
      and xs = a and matches = 0]
  by (simp add: count_mset count_list_eq_length_filter)

lemma calculate_ratio_mono: "m \<le> m' \<Longrightarrow> calculate_ratio m len \<le> calculate_ratio m' len"
  by (simp add: calculate_ratio_def divide_right_mono)

lemma ratio_le_quick_ratio: "ratio a b \<le> quick_ratio a b"
  unfolding ratio_def quick_ratio_def Let_def quick_loop_eq
  using matches_le_common[of a b] by (intro calculate_ratio_mono) (simp add: sizes_def)

lemma quick_ratio_le_real_quick_ratio: "quick_ratio a b \<le> real_quick_ratio a b"
proof -
  have "size (mset a \<inter># mset b) \<le> size (mset a)" "size (mset a \<inter># mset b) \<le> size (mset b)"
    by (intro size_mset_mono, simp)+
  then have "size (mset a \<inter># mset b) \<le> min (length a) (length b)" by simp
  then show ?thesis
    unfolding quick_ratio_def real_quick_ratio_def Let_def quick_loop_eq
    by (rule calculate_ratio_mono)
qed

lemma close_match_filter:
  "filter (\<lambda>x. real_quick_ratio x word \<ge> cutoff \<and> quick_ratio x word \<ge> cutoff \<and>
                ratio x word \<ge> cutoff) possibilities
   = filter (\<lambda>x. ratio x word \<ge> cutoff) possibilities"
proof (rule filter_cong[OF refl])
  fix x
  have "ratio x word \<le> quick_ratio x word" "quick_ratio x word \<le> real_quick_ratio x word"
    by (rule ratio_le_quick_ratio, rule quick_ratio_le_real_quick_ratio)
  then show "(real_quick_ratio x word \<ge> cutoff \<and> quick_ratio x word \<ge> cutoff \<and>
      ratio x word \<ge> cutoff) = (ratio x word \<ge> cutoff)" by auto
qed

section \<open>The fallback stage\<close>

lemma take_one_rev_sort:
  fixes xs :: "'a::linorder list"
  assumes "xs \<noteq> []"
  shows "take (nat 1) (rev (sort xs)) = [Max (set xs)]"
proof -
  have n: "rev (sort xs) \<noteq> []" using assms by (metis length_0_conv length_rev length_sort)
  have "rev (sort xs) ! 0 = Max (set xs)"
    using hd_rev_sort_Max[OF assms] assms by (simp add: getitem_def)
  then have "hd (rev (sort xs)) = Max (set xs)" using n by (simp add: hd_conv_nth)
  then show ?thesis using n by (cases "rev (sort xs)") simp_all
qed

lemma get_close_matches_best:
  "get_close_matches word possibilities 1 (7 / 10) =
     Inr (if close_candidates word possibilities = [] then []
          else [best_close_match word possibilities])"
proof (cases "close_candidates word possibilities = []")
  case True
  then show ?thesis
    unfolding get_close_matches_def close_match_filter Let_def close_candidates_def
    by (simp add: nlargest_def)
next
  case False
  let ?res = "map (\<lambda>x. (ratio x word, x)) (close_candidates word possibilities)"
  have "?res \<noteq> []" using False by simp
  then have "take (nat 1) (rev (sort ?res)) = [Max (set ?res)]" by (rule take_one_rev_sort)
  then have "map snd (nlargest 1 ?res) = [best_close_match word possibilities]"
    by (simp add: nlargest_def best_close_match_def)
  then show ?thesis using False
    unfolding get_close_matches_def close_match_filter Let_def
    by (simp add: close_candidates_def)
qed

lemma list_index_first:
  "x \<in> set xs \<Longrightarrow> list_index xs x = Inr (first_index xs x)"
  by (induction xs) (auto simp: first_index_def)

lemma first_index_props:
  assumes "x \<in> set xs"
  shows "first_index xs x < length xs" "xs ! first_index xs x = x"
    "\<forall>j<first_index xs x. xs ! j \<noteq> x"
proof -
  have "first_index xs x < length xs \<and> xs ! first_index xs x = x \<and>
      (\<forall>j<first_index xs x. xs ! j \<noteq> x)"
    using assms
  proof (induction xs)
    case (Cons y ys)
    show ?case
    proof (cases "y = x")
      case True
      then show ?thesis by (simp add: first_index_def)
    next
      case False
      then have ih: "first_index ys x < length ys" "ys ! first_index ys x = x"
        "\<forall>j<first_index ys x. ys ! j \<noteq> x" using Cons by auto
      have f: "first_index (y # ys) x = Suc (first_index ys x)"
        using False by (simp add: first_index_def)
      have "\<forall>j<Suc (first_index ys x). (y # ys) ! j \<noteq> x"
        using False ih(3) by (auto simp: nth_Cons split: nat.splits)
      then show ?thesis unfolding f using ih by simp
    qed
  qed simp
  then show "first_index xs x < length xs" "xs ! first_index xs x = x"
    "\<forall>j<first_index xs x. xs ! j \<noteq> x" by blast+
qed

lemma best_close_match_props:
  assumes "close_candidates u qs \<noteq> []"
  shows "best_close_match u qs \<in> set qs"
    and "ratio (best_close_match u qs) u \<ge> 7 / 10"
    and "\<forall>q\<in>set qs. ratio q u \<le> ratio (best_close_match u qs) u"
    and "\<forall>q\<in>set qs. ratio q u = ratio (best_close_match u qs) u \<longrightarrow> q \<le> best_close_match u qs"
proof -
  let ?C = "close_candidates u qs"
  let ?S = "set (map (\<lambda>q. (ratio q u, q)) ?C)"
  let ?b = "best_close_match u qs"
  have fin: "finite ?S" and ne: "?S \<noteq> {}" using assms by simp_all
  have "Max ?S \<in> ?S" using fin ne by (rule Max_in)
  then obtain q0 where q0: "q0 \<in> set ?C" "Max ?S = (ratio q0 u, q0)" by auto
  then have b: "?b = q0" by (simp add: best_close_match_def)
  have mx: "Max ?S = (ratio ?b u, ?b)" using q0 b by simp
  show in_qs: "?b \<in> set qs" using q0(1) b by (simp add: close_candidates_def)
  show ge: "ratio ?b u \<ge> 7 / 10" using q0(1) b by (simp add: close_candidates_def)
  have le: "(ratio q u, q) \<le> (ratio ?b u, ?b)" if "q \<in> set ?C" for q
  proof -
    have mem: "(ratio q u, q) \<in> ?S" using that by auto
    have "(ratio q u, q) \<le> Max ?S" by (rule Max_ge[OF fin mem])
    then show ?thesis using mx by simp
  qed
  show "\<forall>q\<in>set qs. ratio q u \<le> ratio ?b u"
  proof
    fix q assume q: "q \<in> set qs"
    show "ratio q u \<le> ratio ?b u"
    proof (cases "ratio q u \<ge> 7 / 10")
      case True
      then have "q \<in> set ?C" using q by (simp add: close_candidates_def)
      from le[OF this] show ?thesis by (auto simp: less_eq_prod_def)
    next
      case False
      then show ?thesis using ge by simp
    qed
  qed
  show "\<forall>q\<in>set qs. ratio q u = ratio ?b u \<longrightarrow> q \<le> ?b"
  proof (intro ballI impI)
    fix q assume q: "q \<in> set qs" and e: "ratio q u = ratio ?b u"
    then have "q \<in> set ?C" using ge by (simp add: close_candidates_def)
    from le[OF this] e show "q \<le> ?b" by (auto simp: less_eq_prod_def)
  qed
qed

lemma fallback_stage_eq:
  assumes "length questions = length kb_data"
  shows "fallback_stage (\<lambda>word possibilities. get_close_matches word possibilities 1 (7 / 10))
           user_norm questions kb_data =
     (if close_candidates user_norm questions = [] then Inr None
      else Inr (Some (answer (kb_data ! first_index questions (best_close_match user_norm questions)))))"
proof (cases "close_candidates user_norm questions = []")
  case True
  then show ?thesis unfolding fallback_stage_def get_close_matches_best by simp
next
  case False
  let ?b = "best_close_match user_norm questions"
  have m: "?b \<in> set questions" using best_close_match_props(1)[OF False] .
  have g: "getitem [?b] 0 = Inr ?b" by (simp add: getitem_def)
  have i: "list_index questions ?b = Inr (first_index questions ?b)"
    using m by (rule list_index_first)
  have k: "getitem kb_data (first_index questions ?b) = Inr (kb_data ! first_index questions ?b)"
    using first_index_props(1)[OF m] assms by (simp add: getitem_def)
  show ?thesis unfolding fallback_stage_def get_close_matches_best using False
    by (simp add: g i k)
qed

text \<open>
  Claim C3, as the code has it. When the token-overlap stage returns nothing, the fallback
  yields \<open>None\<close> if no normalized question has a similarity ratio of at least 0.7 with the
  normalized query. Otherwise it chooses a normalized question of the highest ratio; among
  questions of that same ratio it chooses the greatest string in lexicographic order; and
  it returns the answer of the first record whose normalized question is the chosen one.
\<close>

theorem fallback_selects_best_close_match:
  assumes "kb_data \<noteq> []"
    and "overlap_stage (normalize user_input) (kb_questions kb_data) kb_data cutoff = Inr None"
  shows "if \<forall>q\<in>set (kb_questions kb_data). ratio q (normalize user_input) < 7 / 10
    then find_in_kb user_input kb_data cutoff = Inr None
    else
      find_in_kb user_input kb_data cutoff =
        Inr (Some (answer (kb_data ! first_index (kb_questions kb_data)
             (best_close_match (normalize user_input) (kb_questions kb_data))))) \<and>
      first_index (kb_questions kb_data)
        (best_close_match (normalize user_input) (kb_questions kb_data)) < length kb_data \<and>
      normalize (question (kb_data ! first_index (kb_questions kb_data)
          (best_close_match (normalize user_input) (kb_questions kb_data))))
        = best_close_match (normalize user_input) (kb_questions kb_data) \<and>
      (\<forall>j<first_index (kb_questions kb_data)
              (best_close_match (normalize user_input) (kb_questions kb_data)).
         normalize (question (kb_data ! j))
           \<noteq> best_close_match (normalize user_input) (kb_questions kb_data)) \<and>
      ratio (best_close_match (normalize user_input) (kb_questions kb_data))
        (normalize user_input) \<ge> 7 / 10 \<and>
      (\<forall>q\<in>set (kb_questions kb_data).
         ratio q (normalize user_input)
           \<le> ratio (best_close_match (normalize user_input) (kb_questions kb_data))
                (normalize user_input)) \<and>
      (\<forall>q\<in>set (kb_questions kb_data).
         ratio q (normalize user_input)
           = ratio (best_close_match (normalize user_input) (kb_questions kb_data))
                (normalize user_input)
         \<longrightarrow> q \<le> best_close_match (normalize user_input) (kb_questions kb_data))"
proof -
  let ?u = "normalize user_input"
  let ?qs = "kb_questions kb_data"
  let ?b = "best_close_match ?u ?qs"
  let ?i = "first_index ?qs ?b"
  have len: "length ?qs = length kb_data" by (simp add: kb_questions_def)
  have c: "(close_candidates ?u ?qs = []) = (\<forall>q\<in>set ?qs. ratio q ?u < 7 / 10)"
    by (auto simp: close_candidates_def filter_empty_conv not_le)
  have f: "find_in_kb user_input kb_data cutoff =
      (if close_candidates ?u ?qs = [] then Inr None else Inr (Some (answer (kb_data ! ?i))))"
    using assms fallback_stage_eq[OF len, of ?u]
    by (simp add: find_in_kb_def find_in_kb_with_def kb_questions_def)
  show ?thesis
  proof (cases "\<forall>q\<in>set ?qs. ratio q ?u < 7 / 10")
    case True
    then show ?thesis using f c by simp
  next
    case False
    then have ne: "close_candidates ?u ?qs \<noteq> []" using c by simp
    note b = best_close_match_props[OF ne]
    note i = first_index_props[OF b(1)]
    have qi: "normalize (question (kb_data ! j)) = ?qs ! j" if "j < length kb_data" for j
      using that by (simp add: kb_questions_def)
    have i1: "?i < length kb_data" using i(1) len by simp
    have i2: "normalize (question (kb_data ! ?i)) = ?b" using qi[OF i1] i(2) by simp
    have i3: "\<forall>j<?i. normalize (question (kb_data ! j)) \<noteq> ?b"
    proof (intro allI impI)
      fix j assume j: "j < ?i"
      then have "j < length kb_data" using i1 by simp
      then show "normalize (question (kb_data ! j)) \<noteq> ?b" using qi i(3) j by simp
    qed
    have r: "find_in_kb user_input kb_data cutoff = Inr (Some (answer (kb_data ! ?i)))"
      using f ne by simp
    show ?thesis using False r i1 i2 i3 b(2,3,4) by simp
  qed
qed

theorem fallback_selects_best_close_match_witness:
  "find_in_kb ''Whatis flask?''
     [\<lparr>question = ''how to resize images'', answer = ''A1''\<rparr>,
      \<lparr>question = ''What is Flask?'', answer = ''A2''\<rparr>] (6 / 10) = Inr (Some ''A2'') \<and>
   best_close_match ''whatis flask'' [''how to resize images'', ''what is flask'']
     = ''what is flask'' \<and>
   ratio ''what is flask'' ''whatis flask'' = 24 / 25 \<and>
   find_in_kb ''zzz''
     [\<lparr>question = ''how to resize images'', answer = ''A1''\<rparr>,
      \<lparr>question = ''What is Flask?'', answer = ''A2''\<rparr>] (6 / 10) = Inr None"
proof -
  let ?kb = "[\<lparr>question = ''how to resize images'', answer = ''A1''\<rparr>,
      \<lparr>question = ''What is Flask?'', answer = ''A2''\<rparr>]"
  have ne: "?kb \<noteq> []" by simp
  have u: "normalize ''Whatis flask?'' = ''whatis flask''" "normalize ''zzz'' = ''zzz''" by code_simp+
  have q: "kb_questions ?kb = [''how to resize images'', ''what is flask'']" by code_simp
  have s: "overlap_stage ''whatis flask'' [''how to resize images'', ''what is flask''] ?kb (6 / 10)
      = Inr None"
    "overlap_stage ''zzz'' [''how to resize images'', ''what is flask''] ?kb (6 / 10) = Inr None"
    by code_simp+
  have r: "ratio ''how to resize images'' ''whatis flask'' = 3 / 16"
    "ratio ''what is flask'' ''whatis flask'' = 24 / 25"
    "ratio ''how to resize images'' ''zzz'' = 2 / 23"
    "ratio ''what is flask'' ''zzz'' = 0" by code_simp+
  have b: "best_close_match ''whatis flask'' [''how to resize images'', ''what is flask'']
     = ''what is flask''" by code_simp
  have i: "first_index [''how to resize images'', ''what is flask''] ''what is flask'' = 1"
    by code_simp
  show ?thesis
    using fallback_selects_best_close_match[of ?kb "''Whatis flask?''" "6 / 10", unfolded u q, OF ne s(1)]
      fallback_selects_best_close_match[of ?kb "''zzz''" "6 / 10", unfolded u q, OF ne s(2)]
    unfolding b i by (simp add: r)
qed

text \<open>
  Two questions with the same similarity ratio 3/4 with the query and no token in common
  with it: the first occurrence in record order is the first record, and the answer
  returned is that of the second.
\<close>

theorem similarity_tie_not_first_occurrence:
  "ratio (normalize ''abcx'') (normalize ''abcd'') = 3 / 4 \<and>
   ratio (normalize ''abcy'') (normalize ''abcd'') = 3 / 4 \<and>
   find_in_kb ''abcd''
     [\<lparr>question = ''abcx'', answer = ''A1''\<rparr>,
      \<lparr>question = ''abcy'', answer = ''A2''\<rparr>] (6 / 10) = Inr (Some ''A2'')"
  by code_simp

section \<open>Failing operations\<close>

text \<open>
  Claim C9. For a registered intent name \<open>intent_response\<close> returns one of the response
  templates of that intent, whatever the random source yields; for a name with no rule it
  fails with \<open>KeyError\<close> and returns no value. No other operation of the core fails:
  \<open>normalize\<close>, \<open>tokenize\<close>, \<open>detect_sentiment\<close>, \<open>detect_emotions\<close> and \<open>match_intent\<close>
  have no error result at all, and \<open>find_in_kb\<close> never returns one.
\<close>

theorem intent_response_registered_or_error:
  assumes "\<And>n. 0 < n \<Longrightarrow> randbelow n < n"
  shows "(case map_of INTENTS key of
            None \<Rightarrow> intent_response randbelow key = Inl KeyError
          | Some data \<Rightarrow> \<exists>t \<in> set (responses data). intent_response randbelow key = Inr t) \<and>
         (\<exists>r. find_in_kb user_input kb_data cutoff = Inr r)"
proof (cases "map_of INTENTS key")
  case None
  then show ?thesis using find_in_kb_no_error by (simp add: intent_response_def)
next
  case (Some data)
  then have n: "responses data \<noteq> []" by (rule registered_responses_nonempty)
  then have "randbelow (length (responses data)) < length (responses data)"
    using assms by simp
  then have "responses data ! randbelow (length (responses data)) \<in> set (responses data)"
    by (rule nth_mem)
  then show ?thesis using Some n find_in_kb_no_error by (simp add: intent_response_def choice_def)
qed

theorem intent_response_registered_or_error_witness:
  "intent_response (\<lambda>n. n - 1) ''thanks'' = Inr ''Anytime!'' \<and>
   intent_response (\<lambda>n. n - 1) ''farewell'' = Inl KeyError"
proof -
  have h: "\<And>n::nat. 0 < n \<Longrightarrow> n - 1 < n" by simp
  have a: "map_of INTENTS ''thanks'' =
      Some \<lparr>patterns = [bounded ''thanks'', bounded ''thank you'', bounded ''thx''],
       responses = [''You're welcome!'',
                    ''No problem '' @ em_dash @ '' happy to help.'', ''Anytime!'']\<rparr>"
    by (simp add: INTENTS_def)
  have b: "map_of INTENTS ''farewell'' = None" by (simp add: INTENTS_def)
  have c: "intent_response (\<lambda>n. n - 1) ''thanks'' = Inr ''Anytime!''"
    unfolding intent_response_def a choice_def by simp
  show ?thesis
    using intent_response_registered_or_error[where randbelow = "\<lambda>n. n - 1" and key = "''thanks''"
        and user_input = "''hi''" and kb_data = "[]" and cutoff = "6 / 10", OF h]
      intent_response_registered_or_error[where randbelow = "\<lambda>n. n - 1" and key = "''farewell''"
        and user_input = "''hi''" and kb_data = "[]" and cutoff = "6 / 10", OF h]
    unfolding a b c by simp
qed

end
